theory Spec2Isabelle
  imports Main "HOL-Library.Word" "HOL-Library.Code_Target_Nat"
begin

unbundle bit_operations_syntax

section \<open>Data model of the categorizer\<close>

text \<open>
  Durations are \<open>uint16_t\<close>; they are modelled as 16-bit words, so that \<open>+\<close> and \<open>-\<close>
  wrap as they do on the target (ATmega328P, where \<open>int\<close> has 16 bits).  Array indices
  and table sizes are natural numbers; the tables of \<open>categories\<close> are lists that hold
  the \<open>NC\<close>, \<open>NA\<close> and \<open>NO\<close> cells of the C arrays.
\<close>

type_synonym u16 = "16 word"

definition NC :: nat where "NC = 8"
definition NA :: nat where "NA = 8"
definition NO :: nat where "NO = 16"
definition NB :: nat where "NB = 32"
definition NH :: nat where "NH = 64"
definition CEIL :: nat where "CEIL = 65000"
definition CEIL_U :: u16 where "CEIL_U = 65000"
definition MSB :: u16 where "MSB = 65534"
definition BORDER_WIDTH :: nat where "BORDER_WIDTH = 8"
definition START_VAL :: u16 where "START_VAL = 50"
definition MAX_HOLES :: nat where "MAX_HOLES = 1"
definition FIRST_HITS :: nat where "FIRST_HITS = 2"
definition MIN_SIZE :: nat where "MIN_SIZE = 3"
definition C_OPT_2 :: nat where "C_OPT_2 = 2"
definition C_OPT_3 :: nat where "C_OPT_3 = 3"
definition C_OPT_4 :: nat where "C_OPT_4 = 4"

text \<open>Return codes of the categorizer (categorizer.h).\<close>

definition CRC_0 :: nat where "CRC_0 = 0"
definition CRC_2 :: nat where "CRC_2 = 2"
definition CRC_3 :: nat where "CRC_3 = 3"
definition CRC_4 :: nat where "CRC_4 = 4"
definition CRC_5 :: nat where "CRC_5 = 5"
definition CRC_6 :: nat where "CRC_6 = 6"
definition CRC_7 :: nat where "CRC_7 = 7"
definition CRC_10 :: nat where "CRC_10 = 10"
definition CRC_11 :: nat where "CRC_11 = 11"
definition CRC_12 :: nat where "CRC_12 = 12"
definition CRC_13 :: nat where "CRC_13 = 13"
definition CRC_16 :: nat where "CRC_16 = 16"
definition CRC_17 :: nat where "CRC_17 = 17"
definition CRC_18 :: nat where "CRC_18 = 18"

text \<open>
  What C leaves undefined is a value of the model: a division by zero, an access outside a
  buffer, and the use of a local variable that was never assigned.
\<close>

datatype fault = DivisionByZero | OutOfBounds | Indeterminate

record categories =
  cluster_size :: nat
  cluster_count :: "u16 list"
  cluster_ceil :: "u16 list"
  cluster_center :: "u16 list"
  cluster_floor :: "u16 list"
  outlier_size :: nat
  outlier_ind :: "nat list"
  aggreg_size_1 :: nat
  aggreg_size_2 :: nat
  aggreg_center :: "u16 list"
  separator_barrier :: u16
  inlier_count :: nat

section \<open>Classifier (categorizer\_lib.cpp, 3.4)\<close>

text \<open>
  The first loop of \<open>classifier\<close>: starting with the lowest cluster, find the first
  cluster whose ceil lies above \<open>v_val\<close>; the result is \<open>cluster_size\<close> when the loop
  runs to its end.
\<close>

function higher_ceil :: "categories \<Rightarrow> u16 \<Rightarrow> nat \<Rightarrow> nat" where
  "higher_ceil z v_val cat_ind =
     (if cat_ind < cluster_size z
      then (if v_val < cluster_ceil z ! cat_ind then cat_ind
            else higher_ceil z v_val (cat_ind + 1))
      else cat_ind)"
  by pat_completeness auto
termination
  by (relation "measure (\<lambda>(z, v, i). cluster_size z - i)") auto

declare higher_ceil.simps [simp del]

text \<open>
  The loop over the aggregations: an aggregation is adopted when its distance to \<open>v_val\<close>
  is strictly smaller than the running \<open>delta\<close>.  The state is
  \<open>(cat_ind, cat_val, delta)\<close>; \<open>cat_ind\<close> is a \<open>uint8_t\<close>.
\<close>

function aggreg_scan :: "categories \<Rightarrow> u16 \<Rightarrow> nat \<Rightarrow> nat \<times> u16 \<times> u16 \<Rightarrow> nat \<times> u16 \<times> u16" where
  "aggreg_scan z v_val a_ind (cat_ind, cat_val, delta) =
     (if a_ind < aggreg_size_2 z
      then (let d1 = aggreg_center z ! a_ind;
                d2 = (if v_val > d1 then v_val - d1 else d1 - v_val)
            in aggreg_scan z v_val (a_ind + 1)
                 (if d2 < delta then ((cluster_size z + a_ind) mod 256, d1, d2)
                  else (cat_ind, cat_val, delta)))
      else (cat_ind, cat_val, delta))"
  by pat_completeness auto
termination
  by (relation "measure (\<lambda>(z, v, a, s). aggreg_size_2 z - a)") auto

declare aggreg_scan.simps [simp del]

text \<open>
  Label \<open>CONTINUE_WITH_AGGREGATIONS\<close>: the nearest cluster \<open>cat_ind\<close> at distance
  \<open>delta\<close> is known.  The result is \<open>(near, cat_ind, cat_val)\<close>.
\<close>

definition with_aggregations :: "categories \<Rightarrow> u16 \<Rightarrow> nat \<Rightarrow> nat \<Rightarrow> u16 \<Rightarrow> bool \<times> nat \<times> u16" where
  "with_aggregations z v_val option cat_ind delta =
     (let cat_val = cluster_center z ! cat_ind
      in if delta < drop_bit option cat_val then (True, cat_ind, cat_val)
         else (case aggreg_scan z v_val 0 (cat_ind, cat_val, delta) of
                 (ci, cv, d) \<Rightarrow> (d < drop_bit option cv, ci, cv)))"

definition classifier :: "categories \<Rightarrow> u16 \<Rightarrow> nat \<Rightarrow> bool \<times> nat \<times> u16" where
  "classifier z v_val option =
     (let cat_ind = higher_ceil z v_val 0
      in if cat_ind < cluster_size z
         then (if v_val \<ge> cluster_floor z ! cat_ind
               then (True, cat_ind, cluster_center z ! cat_ind)
               else if cat_ind = 0
               then with_aggregations z v_val option cat_ind (cluster_center z ! cat_ind - v_val)
               else (let d1 = cluster_center z ! cat_ind - v_val;
                         d2 = v_val - cluster_center z ! (cat_ind - 1)
                     in if d1 < d2 then with_aggregations z v_val option cat_ind d1
                        else with_aggregations z v_val option (cat_ind - 1) d2))
         else (let top = (cluster_size z + 255) mod 256
               in with_aggregations z v_val option top (v_val - cluster_center z ! top)))"

text \<open>Clusters in ascending order that do not overlap.\<close>

definition clusters_ascending :: "categories \<Rightarrow> bool" where
  "clusters_ascending z \<longleftrightarrow>
     (\<forall>j \<in> {0..<cluster_size z}. \<forall>i \<in> {0..<j}. cluster_ceil z ! i \<le> cluster_floor z ! j)"

section \<open>Nearest category, as the specification words it\<close>

text \<open>
  The distance between a value and a center is the absolute difference of the two
  unsigned numbers.  The nearest cluster is the cluster with the smallest distance (the
  lowest index among equals); the nearest category starts from the nearest cluster and
  adopts aggregation \<open>a\<close>, as index \<open>cluster_size + a\<close>, when it is strictly nearer.
\<close>

definition dist :: "u16 \<Rightarrow> u16 \<Rightarrow> nat" where
  "dist a b = (if unat a \<le> unat b then unat b - unat a else unat a - unat b)"

definition nearest_cluster :: "categories \<Rightarrow> u16 \<Rightarrow> nat" where
  "nearest_cluster z v =
     fold (\<lambda>i b. if dist v (cluster_center z ! i) < dist v (cluster_center z ! b) then i else b)
       [0..<cluster_size z] 0"

definition adopt :: "categories \<Rightarrow> u16 \<Rightarrow> nat \<Rightarrow> nat \<times> u16 \<Rightarrow> nat \<times> u16" where
  "adopt z v a c = (if dist v (aggreg_center z ! a) < dist v (snd c)
                    then (cluster_size z + a, aggreg_center z ! a) else c)"

definition nearest_category :: "categories \<Rightarrow> u16 \<Rightarrow> nat \<times> u16" where
  "nearest_category z v =
     fold (adopt z v) [0..<aggreg_size_2 z]
       (nearest_cluster z v, cluster_center z ! nearest_cluster z v)"

definition centers_inside :: "categories \<Rightarrow> bool" where
  "centers_inside z \<longleftrightarrow>
     (\<forall>k \<in> {0..<cluster_size z}. cluster_floor z ! k \<le> cluster_center z ! k
        \<and> cluster_center z ! k < cluster_ceil z ! k)"

definition outside_clusters :: "categories \<Rightarrow> u16 \<Rightarrow> bool" where
  "outside_clusters z v \<longleftrightarrow>
     (\<forall>k \<in> {0..<cluster_size z}. \<not> (cluster_floor z ! k \<le> v \<and> v < cluster_ceil z ! k))"

section \<open>Resorber (categorizer\_lib.cpp, 3.2)\<close>

text \<open>
  The relative delta per thousand between a sum of values and a sum of category centers,
  computed in \<open>int32_t\<close> and stored in a \<open>uint16_t\<close>.  The division is undefined
  when the sum of values is zero.
\<close>

definition rel_delta_of :: "int \<Rightarrow> int \<Rightarrow> fault + u16" where
  "rel_delta_of v_sum cat_sum =
     (if v_sum = 0 then Inl DivisionByZero
      else Inr (word_of_int ((1000 * \<bar>v_sum - cat_sum\<bar>) div v_sum)))"

text \<open>The sum of \<open>v[a] .. v[b]\<close>, accumulated in an \<open>int32_t\<close>.\<close>

definition window_sum :: "u16 list \<Rightarrow> nat \<Rightarrow> nat \<Rightarrow> int" where
  "window_sum v a b = sum_list (map (\<lambda>i. uint (v ! i)) [a..<Suc b])"

text \<open>
  The virtual triple: the three central values plus what the front and the back value
  leave over their category centers.  The three central values are added as
  \<open>uint16_t\<close> (\<open>unsigned int\<close> on the target) before they enter the \<open>int32_t\<close> sum.
\<close>

definition virtual_triple :: "u16 list \<Rightarrow> u16 list \<Rightarrow> nat \<Rightarrow> int" where
  "virtual_triple v ss_cat v_ind =
     (uint (v ! v_ind) - uint (ss_cat ! 0))
     + uint (v ! (v_ind + 1) + v ! (v_ind + 2) + v ! (v_ind + 3))
     + (uint (v ! (v_ind + 4)) - uint (ss_cat ! 4))"

definition resorber_option :: "u16 \<Rightarrow> nat" where
  "resorber_option rel_delta_bestfit = (if rel_delta_bestfit > 100 then C_OPT_3 else C_OPT_4)"

text \<open>The window after a resorption: \<open>(front, cat_val, 0, 0, back)\<close>.\<close>

definition resorbed :: "u16 list \<Rightarrow> u16 list \<Rightarrow> nat \<Rightarrow> u16 \<Rightarrow> u16 list" where
  "resorbed v ss_cat v_ind cat_val =
     v[v_ind := ss_cat ! 0, v_ind + 1 := cat_val, v_ind + 2 := 0, v_ind + 3 := 0,
       v_ind + 4 := ss_cat ! 4]"

text \<open>
  The tail of \<open>resorber\<close>, from the comment "modify the raw data" on: the window is
  rewritten, then an aggregation category is recorded as a new outlier.  The result is
  \<open>(returned flag, z, v, rel_delta, rc)\<close>.
\<close>

definition resorb_commit ::
  "categories \<Rightarrow> u16 list \<Rightarrow> u16 list \<Rightarrow> nat \<Rightarrow> nat \<Rightarrow> u16 \<Rightarrow> u16
     \<Rightarrow> bool \<times> categories \<times> u16 list \<times> u16 \<times> nat" where
  "resorb_commit z v ss_cat ss_start_ind cat_ind cat_val rel_delta =
     (let v' = resorbed v ss_cat ss_start_ind cat_val
      in if cat_ind \<ge> cluster_size z
         then (if outlier_size z \<ge> NO
               then (False, z, v', rel_delta, CRC_5)
               else (True,
                     z\<lparr>outlier_ind := list_update (outlier_ind z) (outlier_size z) (ss_start_ind + 1),
                       outlier_size := outlier_size z + 1\<rparr>,
                     v', rel_delta, CRC_0))
         else (True, z, v', rel_delta, CRC_0))"

text \<open>
  The difference of the two \<open>uint16_t\<close> indices is taken modulo \<open>2^16\<close>.
\<close>

definition resorber ::
  "categories \<Rightarrow> u16 list \<Rightarrow> u16 list \<Rightarrow> nat \<Rightarrow> nat \<Rightarrow> u16
     \<Rightarrow> fault + (bool \<times> categories \<times> u16 list \<times> u16 \<times> nat)" where
  "resorber z v ss_cat ss_start_ind ss_stop_ind rel_delta =
     (if (ss_stop_ind + 65536 - ss_start_ind) mod 65536 \<noteq> 4
      then Inr (False, z, v, rel_delta, CRC_0)
      else
        let rel_delta_bestfit = rel_delta;
            option = resorber_option rel_delta_bestfit;
            v_sum = virtual_triple v ss_cat ss_start_ind
        in if v_sum > int CEIL then Inr (False, z, v, rel_delta, CRC_18)
           else
             (case classifier z (word_of_int v_sum) option of
                (near, cat_ind, cat_val) \<Rightarrow>
                  if \<not> near then Inr (False, z, v, rel_delta, CRC_0)
                  else
                    (case rel_delta_of (window_sum v ss_start_ind ss_stop_ind)
                            (uint (ss_cat ! 0 + cat_val + ss_cat ! 4)) of
                       Inl f \<Rightarrow> Inl f
                     | Inr rel_delta \<Rightarrow>
                         if rel_delta > rel_delta_bestfit
                         then Inr (False, z, v, rel_delta_bestfit, CRC_0)
                         else Inr (resorb_commit z v ss_cat ss_start_ind cat_ind cat_val rel_delta))))"

text \<open>
  The category the resorber assigns to the virtual triple, and the relative delta of the
  resorption, named for the statements below.
\<close>

definition triple_category :: "categories \<Rightarrow> u16 list \<Rightarrow> u16 list \<Rightarrow> nat \<Rightarrow> u16 \<Rightarrow> bool \<times> nat \<times> u16" where
  "triple_category z v ss_cat ss_start_ind rel_delta =
     classifier z (word_of_int (virtual_triple v ss_cat ss_start_ind)) (resorber_option rel_delta)"

definition resorber_rel_delta :: "categories \<Rightarrow> u16 list \<Rightarrow> u16 list \<Rightarrow> nat \<Rightarrow> u16 \<Rightarrow> fault + u16" where
  "resorber_rel_delta z v ss_cat ss_start_ind rel_delta =
     rel_delta_of (window_sum v ss_start_ind (ss_start_ind + 4))
       (uint (ss_cat ! 0 + snd (snd (triple_category z v ss_cat ss_start_ind rel_delta)) + ss_cat ! 4))"

section \<open>Helpers (categorizer\_lib.cpp, 3.7)\<close>

text \<open>
  \<open>index_sort\<close>: insertion sort of the first \<open>n\<close> indices of \<open>v_ind\<close>, ascending in the
  values they point to.  \<open>shift_down\<close> is the inner \<open>do .. while\<close> loop; it returns the
  array and the final \<open>j\<close>.
\<close>

function shift_down :: "u16 list \<Rightarrow> nat list \<Rightarrow> nat \<Rightarrow> nat \<Rightarrow> nat list \<times> nat" where
  "shift_down v v_ind tmp_ind j =
     (let v_ind' = v_ind[j := v_ind ! (j - 1)]; j' = j - 1
      in if j' > 0 \<and> v ! (v_ind' ! (j' - 1)) > v ! tmp_ind
         then shift_down v v_ind' tmp_ind j' else (v_ind', j'))"
  by pat_completeness auto
termination
  by (relation "measure (\<lambda>(v, xs, t, j). j)") auto

declare shift_down.simps [simp del]

function index_sort_from :: "u16 list \<Rightarrow> nat list \<Rightarrow> nat \<Rightarrow> nat \<Rightarrow> nat list" where
  "index_sort_from v v_ind n i =
     (if i < n
      then (let tmp_ind = v_ind ! i
            in if v ! (v_ind ! (i - 1)) > v ! tmp_ind
               then (case shift_down v v_ind tmp_ind i of
                       (v_ind', j) \<Rightarrow> index_sort_from v (v_ind'[j := tmp_ind]) n (i + 1))
               else index_sort_from v v_ind n (i + 1))
      else v_ind)"
  by pat_completeness auto
termination
  by (relation "measure (\<lambda>(v, xs, n, i). n - i)") auto

declare index_sort_from.simps [simp del]

definition index_sort :: "u16 list \<Rightarrow> nat list \<Rightarrow> nat \<Rightarrow> nat list" where
  "index_sort v v_ind n = index_sort_from v v_ind n 1"

text \<open>\<open>sort\<close>: the same insertion sort on the values themselves (here: outlier indices).\<close>

function sort_shift :: "nat list \<Rightarrow> nat \<Rightarrow> nat \<Rightarrow> nat list \<times> nat" where
  "sort_shift s tmp j =
     (let s' = s[j := s ! (j - 1)]; j' = j - 1
      in if j' > 0 \<and> s' ! (j' - 1) > tmp then sort_shift s' tmp j' else (s', j'))"
  by pat_completeness auto
termination
  by (relation "measure (\<lambda>(s, t, j). j)") auto

declare sort_shift.simps [simp del]

function sort_from :: "nat list \<Rightarrow> nat \<Rightarrow> nat \<Rightarrow> nat list" where
  "sort_from s n i =
     (if i < n
      then (let tmp = s ! i
            in if s ! (i - 1) > tmp
               then (case sort_shift s tmp i of (s', j) \<Rightarrow> sort_from (s'[j := tmp]) n (i + 1))
               else sort_from s n (i + 1))
      else s)"
  by pat_completeness auto
termination
  by (relation "measure (\<lambda>(s, n, i). n - i)") auto

declare sort_from.simps [simp del]

definition sort_asc :: "nat list \<Rightarrow> nat \<Rightarrow> nat list" where
  "sort_asc s n = sort_from s n 1"

text \<open>
  \<open>merge\<close>: the first \<open>na\<close> cells of \<open>a\<close> and the first \<open>nb\<close> cells of \<open>b\<close> are merged
  into the front of the buffer \<open>c\<close>; the state of the three loops is \<open>(i, j, k)\<close>.
\<close>

function merge_loop :: "nat list \<Rightarrow> nat \<Rightarrow> nat list \<Rightarrow> nat \<Rightarrow> nat list \<Rightarrow> nat \<Rightarrow> nat \<Rightarrow> nat \<Rightarrow> nat list" where
  "merge_loop a na b nb c i j k =
     (if i < na \<and> j < nb
      then (if a ! i < b ! j then merge_loop a na b nb (c[k := a ! i]) (i + 1) j (k + 1)
            else merge_loop a na b nb (c[k := b ! j]) i (j + 1) (k + 1))
      else if i < na then merge_loop a na b nb (c[k := a ! i]) (i + 1) j (k + 1)
      else if j < nb then merge_loop a na b nb (c[k := b ! j]) i (j + 1) (k + 1)
      else c)"
  by pat_completeness auto
termination
  by (relation "measure (\<lambda>(a, na, b, nb, c, i, j, k). (na - i) + (nb - j))") auto

declare merge_loop.simps [simp del]

definition merge :: "nat list \<Rightarrow> nat \<Rightarrow> nat list \<Rightarrow> nat \<Rightarrow> nat list \<Rightarrow> nat list \<times> nat" where
  "merge a na b nb c = (merge_loop a na b nb c 0 0 0, (na + nb) mod 256)"

section \<open>Extractor (categorizer\_lib.cpp, 3.1)\<close>

text \<open>
  The two loops of \<open>extractor\<close>: the next unreliable value at or after \<open>v_ind\<close> and up to
  a bound, then the next reliable value.  The extractor returns \<open>None\<close> for false and
  \<open>Some (v_ind, ss_start_ind, ss_stop_ind)\<close> for true; \<open>v_stop_ind - 2\<close> and
  \<open>v_ind - 1\<close> are \<open>uint16_t\<close> differences.
\<close>

function find_unreliable :: "u16 list \<Rightarrow> nat \<Rightarrow> nat \<Rightarrow> nat option" where
  "find_unreliable v bound v_ind =
     (if v_ind \<le> bound
      then (if v ! v_ind AND 1 = 1 then Some v_ind else find_unreliable v bound (v_ind + 1))
      else None)"
  by pat_completeness auto
termination
  by (relation "measure (\<lambda>(v, b, i). Suc b - i)") auto

declare find_unreliable.simps [simp del]

function find_reliable :: "u16 list \<Rightarrow> nat \<Rightarrow> nat \<Rightarrow> nat option" where
  "find_reliable v bound v_ind =
     (if v_ind \<le> bound
      then (if v ! v_ind AND 1 = 0 then Some v_ind else find_reliable v bound (v_ind + 1))
      else None)"
  by pat_completeness auto
termination
  by (relation "measure (\<lambda>(v, b, i). Suc b - i)") auto

declare find_reliable.simps [simp del]

definition extractor :: "u16 list \<Rightarrow> nat \<Rightarrow> nat \<Rightarrow> (nat \<times> nat \<times> nat) option" where
  "extractor v v_stop_ind v_ind =
     (case find_unreliable v ((v_stop_ind + 65534) mod 65536) v_ind of
        None \<Rightarrow> None
      | Some u \<Rightarrow>
          (case find_reliable v v_stop_ind u of
             None \<Rightarrow> None
           | Some r \<Rightarrow> Some (r + 1, (u + 65535) mod 65536, r)))"

section \<open>Aggregator (categorizer\_lib.cpp, 3.3)\<close>

text \<open>
  The inner \<open>do .. while\<close> loop collects one group of adjacent outlier values.  It returns
  the sum, the count, the index it stopped at, and whether it left through
  \<open>goto ENDE\<close> (the last outlier was consumed).  The adjacency test adds two
  \<open>uint16_t\<close> values.
\<close>

function group_scan :: "u16 list \<Rightarrow> nat list \<Rightarrow> nat \<Rightarrow> nat \<Rightarrow> int \<Rightarrow> nat \<Rightarrow> int \<times> nat \<times> nat \<times> bool" where
  "group_scan v o_ind_arr o_last_ind o_ind v_sum v_count =
     (let v_below = v ! (o_ind_arr ! o_ind);
          v_sum' = v_sum + uint v_below;
          v_count' = (v_count + 1) mod 256
      in if o_ind \<ge> o_last_ind then (v_sum', v_count', o_ind, True)
         else (let v_above = v ! (o_ind_arr ! (o_ind + 1))
               in if v_below + drop_bit 3 v_above > v_above
                  then group_scan v o_ind_arr o_last_ind (o_ind + 1) v_sum' v_count'
                  else (v_sum', v_count', o_ind + 1, False)))"
  by pat_completeness auto
termination
  by (relation "measure (\<lambda>(v, oi, l, i, s, c). l - i)") auto

declare group_scan.simps [simp del]

text \<open>A group becomes an aggregation when it holds more than \<open>v_min_count\<close> values.\<close>

definition put_aggreg :: "categories \<Rightarrow> u16 \<Rightarrow> nat \<Rightarrow> nat \<Rightarrow> categories" where
  "put_aggreg z center v_count v_min_count =
     (if v_count > v_min_count
      then z\<lparr>aggreg_center := list_update (aggreg_center z) (aggreg_size_2 z) (center AND MSB),
             aggreg_size_2 := aggreg_size_2 z + 1\<rparr>
      else z)"

lemma group_scan_advances:
  "group_scan v oi l i s c = (s', c', i', False) \<Longrightarrow> i < i'"
proof (induction v oi l i s c rule: group_scan.induct)
  case (1 v o_ind_arr o_last_ind o_ind v_sum v_count)
  define v_below where "v_below = v ! (o_ind_arr ! o_ind)"
  define v_above where "v_above = v ! (o_ind_arr ! (o_ind + 1))"
  have nl: "\<not> o_ind \<ge> o_last_ind"
    using "1.prems" by (subst (asm) group_scan.simps) (auto simp: Let_def split: if_splits)
  show ?case
  proof (cases "v_below + drop_bit 3 v_above > v_above")
    case True
    have "group_scan v o_ind_arr o_last_ind (o_ind + 1) (v_sum + uint v_below)
            ((v_count + 1) mod 256) = (s', c', i', False)"
      using "1.prems" nl True
      by (subst (asm) group_scan.simps) (simp add: Let_def v_below_def v_above_def)
    then have "o_ind + 1 < i'"
      using nl True by (intro "1.IH") (auto simp: v_below_def v_above_def)
    then show ?thesis by simp
  next
    case False
    then have "i' = o_ind + 1"
      using "1.prems" nl
      by (subst (asm) group_scan.simps) (simp add: Let_def v_below_def v_above_def)
    then show ?thesis by simp
  qed
qed

text \<open>
  The outer \<open>do .. while\<close> loop with the code that follows it; the result is the
  category set and the return code.
\<close>

function aggreg_groups :: "u16 list \<Rightarrow> nat \<Rightarrow> nat \<Rightarrow> categories \<Rightarrow> nat \<Rightarrow> categories \<times> nat" where
  "aggreg_groups v v_min_count o_last_ind z o_ind =
     (if aggreg_size_2 z \<ge> NC then (z, CRC_4)
      else (case group_scan v (outlier_ind z) o_last_ind o_ind 0 0 of
              (v_sum, v_count, o_ind', ended) \<Rightarrow>
                (let z' = put_aggreg z (word_of_int (v_sum div int v_count)) v_count v_min_count
                 in if ended then (z', CRC_0)
                    else if o_ind' < o_last_ind
                    then aggreg_groups v v_min_count o_last_ind z' o_ind'
                    else if o_ind' = o_last_ind
                    then (if aggreg_size_2 z' \<ge> NC then (z', CRC_4)
                          else (put_aggreg z' (v ! (outlier_ind z' ! o_ind')) 1 v_min_count, CRC_0))
                    else (z', CRC_17))))"
  by pat_completeness auto
termination
  apply (relation "measure (\<lambda>(v, m, l, z, i). l - i)")
   apply simp
  apply (auto dest!: group_scan_advances [OF sym])
  done

declare aggreg_groups.simps [simp del]

definition aggregator :: "categories \<Rightarrow> u16 list \<Rightarrow> nat \<Rightarrow> categories \<times> nat" where
  "aggregator z v v_min_count =
     (let z1 = z\<lparr>aggreg_size_2 := aggreg_size_1 z\<rparr>
      in if outlier_size z1 < 1 then (z1, CRC_0)
         else (let z2 = z1\<lparr>outlier_ind := index_sort v (outlier_ind z1) (outlier_size z1)\<rparr>
               in aggreg_groups v v_min_count ((outlier_size z2 + 255) mod 256) z2 0))"

section \<open>Corrector (categorizer.cpp, 2.2)\<close>

text \<open>
  The two category sets \<open>z[LOW]\<close> and \<open>z[HIGH]\<close> are a pair; \<open>z[ind & LSB]\<close> selects
  the set of the polarity of a value index (odd: HIGH).
\<close>

type_synonym catpair = "categories \<times> categories"

definition z_at :: "catpair \<Rightarrow> nat \<Rightarrow> categories" where
  "z_at zz ind = (if ind mod 2 = 1 then snd zz else fst zz)"

definition z_put :: "catpair \<Rightarrow> nat \<Rightarrow> categories \<Rightarrow> catpair" where
  "z_put zz ind z = (if ind mod 2 = 1 then (fst zz, z) else (z, snd zz))"

text \<open>Append an index to the outlier table (the caller has checked the size).\<close>

definition add_outlier :: "categories \<Rightarrow> nat \<Rightarrow> categories" where
  "add_outlier z ind =
     z\<lparr>outlier_ind := list_update (outlier_ind z) (outlier_size z) ind,
       outlier_size := outlier_size z + 1\<rparr>"

text \<open>A read of a buffer at a signed index.\<close>

definition buf_read :: "'a list \<Rightarrow> int \<Rightarrow> fault + 'a" where
  "buf_read b i = (if 0 \<le> i \<and> i < int (length b) then Inr (b ! nat i) else Inl OutOfBounds)"

subsection \<open>Outlier correction (2.2.1)\<close>

text \<open>
  The body of the scan for the merged outlier \<open>curr_v_ind\<close>, up to the writes into
  \<open>v\<close>.  The result is \<open>(correctable, v, prev_center, prev_v_ind)\<close>: whether the outlier
  was corrected, the array after the correction, and the value of the local variable
  \<open>prev_center\<close>.  That variable belongs to the enclosing block: it keeps its value from
  one iteration to the next and is unassigned (\<open>None\<close>) at the start.  The maximum
  relative delta, which is only printed, is left out.
\<close>

definition outlier_step ::
  "catpair \<Rightarrow> nat \<Rightarrow> u16 list \<Rightarrow> nat \<Rightarrow> u16 option
     \<Rightarrow> fault + (bool \<times> u16 list \<times> u16 option \<times> nat)" where
  "outlier_step zz v_stop_ind v curr_v_ind prev_center =
     (let prev_v_ind = (curr_v_ind + 65535) mod 65536;
          next_v_ind = (curr_v_ind + 1) mod 65536
      in if v ! curr_v_ind > separator_barrier (z_at zz curr_v_ind)
         then Inr (False, v, prev_center, prev_v_ind)
         else
           let has_prev = (prev_v_ind \<ge> 1);
               has_next = (next_v_ind \<le> v_stop_ind);
               cp = classifier (z_at zz prev_v_ind) (v ! prev_v_ind) C_OPT_2;
               cn = classifier (z_at zz next_v_ind) (v ! next_v_ind) C_OPT_2;
               cc = classifier (z_at zz curr_v_ind) (v ! curr_v_ind) C_OPT_2;
               prev_center' = (if has_prev then Some (snd (snd cp)) else prev_center);
               next_center = snd (snd cn);
               curr_center = snd (snd cc);
               flag1 = (if has_prev then fst cp else False);
               flag2 = (if has_next then fst cn \<and> flag1 else flag1);
               flag = (fst cc \<or> flag2);
               t_center_sum = (if has_prev then uint (snd (snd cp)) else 0)
                            + (if has_next then uint next_center else 0);
               v_sum = uint (v ! curr_v_ind)
                     + (if has_prev then uint (v ! prev_v_ind) else 0)
                     + (if has_next then uint (v ! next_v_ind) else 0)
           in case rel_delta_of v_sum (t_center_sum + uint (v ! curr_v_ind)) of
                Inl f \<Rightarrow> Inl f
              | Inr rel_delta \<Rightarrow>
                 (case rel_delta_of v_sum (t_center_sum + uint curr_center) of
                    Inl f \<Rightarrow> Inl f
                  | Inr rel_delta_cor \<Rightarrow>
                      if \<not> flag \<or> rel_delta < rel_delta_cor
                      then Inr (False, v, prev_center', prev_v_ind)
                      else
                        let v1 = (if has_prev then v[prev_v_ind := snd (snd cp) AND MSB] else v);
                            v2 = v1[curr_v_ind := curr_center AND MSB];
                            v3 = (if has_next then v2[next_v_ind := next_center AND MSB] else v2)
                        in Inr (True, v3, prev_center', prev_v_ind)))"

text \<open>
  The scan of the merged outliers, from the top index downwards.  \<open>m_ind\<close> is an
  \<open>int8_t\<close>.  After a correction the entry is cleared and the entry below it is read,
  to see whether the preceding value is an outlier too.
\<close>

function outlier_scan ::
  "catpair \<Rightarrow> nat \<Rightarrow> u16 list \<Rightarrow> nat list \<Rightarrow> u16 option \<Rightarrow> int
     \<Rightarrow> fault + (u16 list \<times> nat list)" where
  "outlier_scan zz v_stop_ind v m prev_center m_ind =
     (if m_ind < 0 then Inr (v, m)
      else
        (case outlier_step zz v_stop_ind v (m ! nat m_ind) prev_center of
           Inl f \<Rightarrow> Inl f
         | Inr (correctable, v3, prev_center', prev_v_ind) \<Rightarrow>
             if \<not> correctable then outlier_scan zz v_stop_ind v m prev_center' (m_ind - 1)
             else
               (case buf_read (m[nat m_ind := 0]) (m_ind - 1) of
                  Inl f \<Rightarrow> Inl f
                | Inr below \<Rightarrow>
                    if below = prev_v_ind
                    then (case prev_center' of
                            None \<Rightarrow> Inl Indeterminate
                          | Some c \<Rightarrow>
                              outlier_scan zz v_stop_ind (v3[prev_v_ind := c])
                                ((m[nat m_ind := 0])[nat (m_ind - 1) := 0]) prev_center' (m_ind - 2))
                    else outlier_scan zz v_stop_ind v3 (m[nat m_ind := 0]) prev_center' (m_ind - 1))))"
  by pat_completeness auto
termination
  by (relation "measure (\<lambda>(zz, e, v, m, pc, i). nat (i + 1))") auto

declare outlier_scan.simps [simp del]

text \<open>
  The split of the remaining merged outliers into the two tables.  The write
  \<open>outlier_ind[outlier_size++]\<close> is not guarded by the code.
\<close>

function split_loop :: "nat list \<Rightarrow> nat \<Rightarrow> catpair \<Rightarrow> nat \<Rightarrow> fault + catpair" where
  "split_loop m m_outlier_size zz m_ind =
     (if m_ind < m_outlier_size
      then (let curr_v_ind = m ! m_ind
            in if curr_v_ind = 0 then split_loop m m_outlier_size zz (m_ind + 1)
               else if outlier_size (z_at zz curr_v_ind) \<ge> NO then Inl OutOfBounds
               else split_loop m m_outlier_size
                      (z_put zz curr_v_ind (add_outlier (z_at zz curr_v_ind) curr_v_ind))
                      (m_ind + 1))
      else Inr zz)"
  by pat_completeness auto
termination
  by (relation "measure (\<lambda>(m, n, zz, i). n - i)") auto

declare split_loop.simps [simp del]

text \<open>
  Part 2.2.1 as a whole.  The result is \<open>(returned, zz, v, rc)\<close>, where \<open>returned\<close>
  says that the corrector has left through a \<open>return\<close>.  The merged outliers live in the
  caller's buffer of \<open>DIM_64\<close> cells.
\<close>

definition NM :: nat where "NM = 32"
definition DIM_64 :: nat where "DIM_64 = 64"

definition outlier_correction ::
  "catpair \<Rightarrow> u16 list \<Rightarrow> nat \<Rightarrow> fault + (bool \<times> catpair \<times> u16 list \<times> nat)" where
  "outlier_correction zz v v_stop_ind =
     (if outlier_size (snd zz) > 0 \<or> outlier_size (fst zz) > 0
      then
        if outlier_size (snd zz) + outlier_size (fst zz) > NM then Inr (True, zz, v, CRC_16)
        else
          (case merge (outlier_ind (snd zz)) (outlier_size (snd zz))
                      (outlier_ind (fst zz)) (outlier_size (fst zz)) (replicate DIM_64 0) of
             (m, m_outlier_size) \<Rightarrow>
               if m_outlier_size = 0 then Inr (True, zz, v, CRC_0)
               else
                 (case outlier_scan zz v_stop_ind v m None (int m_outlier_size - 1) of
                    Inl f \<Rightarrow> Inl f
                  | Inr (v', m') \<Rightarrow>
                      (case split_loop m' m_outlier_size
                              (fst zz\<lparr>outlier_size := 0\<rparr>, snd zz\<lparr>outlier_size := 0\<rparr>) 0 of
                         Inl f \<Rightarrow> Inl f
                       | Inr zz' \<Rightarrow>
                           (case aggregator (snd zz') v' 0 of
                              (zh, rc) \<Rightarrow>
                                if rc > CRC_0 then Inr (True, (fst zz', zh), v', rc)
                                else (case aggregator (fst zz') v' 0 of
                                        (zl, rc') \<Rightarrow> Inr (False, (zl, zh), v', rc'))))))
      else Inr (False, zz, v, CRC_0))"

subsection \<open>Untrusted subsequences correction (2.2.2)\<close>

text \<open>\<open>ss_len = ss_stop_ind - ss_start_ind + 1\<close>, a \<open>uint16_t\<close>.\<close>

definition ss_len :: "nat \<Rightarrow> nat \<Rightarrow> nat" where
  "ss_len ss_start_ind ss_stop_ind = (ss_stop_ind + 65536 - ss_start_ind + 1) mod 65536"

text \<open>
  2.2.2.1: every value of the window above its separator barrier becomes an outlier and
  the outliers of its polarity are aggregated again.  The return code of the aggregator
  is stored and not tested.  The result is \<open>(returned, zz, rc)\<close>.
\<close>

function promote :: "catpair \<Rightarrow> u16 list \<Rightarrow> nat \<Rightarrow> nat \<Rightarrow> nat \<Rightarrow> bool \<times> catpair \<times> nat" where
  "promote zz v ss_stop_ind rc v_ind =
     (if v_ind \<le> ss_stop_ind
      then (if v ! v_ind > separator_barrier (z_at zz v_ind)
            then (if outlier_size (z_at zz v_ind) \<ge> NO then (True, zz, CRC_5)
                  else (case aggregator (add_outlier (z_at zz v_ind) v_ind) v 0 of
                          (z', rc') \<Rightarrow> promote (z_put zz v_ind z') v ss_stop_ind rc' (v_ind + 1)))
            else promote zz v ss_stop_ind rc (v_ind + 1))
      else (False, zz, rc))"
  by pat_completeness auto
termination
  by (relation "measure (\<lambda>(zz, v, e, rc, i). Suc e - i)") auto

declare promote.simps [simp del]

text \<open>2.2.2.2: the nearest category of each value of the window, under \<open>C_OPT_3\<close>.\<close>

definition ss_classify :: "catpair \<Rightarrow> u16 list \<Rightarrow> nat \<Rightarrow> nat \<Rightarrow> (bool \<times> nat \<times> u16) list" where
  "ss_classify zz v ss_start_ind ss_stop_ind =
     map (\<lambda>v_ind. classifier (z_at zz v_ind) (v ! v_ind) C_OPT_3) [ss_start_ind..<Suc ss_stop_ind]"

text \<open>The best-fit overwrite: \<open>v[ss_start_ind + k] = ss_cat[k]\<close>.\<close>

fun overwrite :: "u16 list \<Rightarrow> nat \<Rightarrow> u16 list \<Rightarrow> u16 list" where
  "overwrite v v_ind [] = v"
| "overwrite v v_ind (c # cs) = overwrite (v[v_ind := c]) (Suc v_ind) cs"

text \<open>
  The body of the \<open>while\<close> loop for one extracted window.  The result is
  \<open>(returned, zz, v, rc)\<close>.
\<close>

definition correct_window ::
  "catpair \<Rightarrow> u16 list \<Rightarrow> nat \<Rightarrow> nat \<Rightarrow> nat \<Rightarrow> fault + (bool \<times> catpair \<times> u16 list \<times> nat)" where
  "correct_window zz v ss_start_ind ss_stop_ind rc =
     (if ss_len ss_start_ind ss_stop_ind < 4 \<or> ss_len ss_start_ind ss_stop_ind > 5
      then Inr (True, zz, v, CRC_2)
      else
        (case promote zz v ss_stop_ind rc ss_start_ind of
           (returned, zz1, rc1) \<Rightarrow>
             if returned then Inr (True, zz1, v, rc1)
             else
               let cs = ss_classify zz1 v ss_start_ind ss_stop_ind;
                   flag = list_all fst cs;
                   ss_cat = map (\<lambda>c. snd (snd c)) cs;
                   v_sum = window_sum v ss_start_ind ss_stop_ind;
                   cat_sum = sum_list (map uint ss_cat)
               in case rel_delta_of v_sum cat_sum of
                    Inl f \<Rightarrow> Inl f
                  | Inr rel_delta \<Rightarrow>
                      if flag then Inr (False, zz1, overwrite v ss_start_ind ss_cat, rc1)
                      else
                        (case resorber (z_at zz1 (ss_start_ind + 1)) v ss_cat
                                ss_start_ind ss_stop_ind rel_delta of
                           Inl f \<Rightarrow> Inl f
                         | Inr (resorbed_flag, z', v', rel_delta', rc') \<Rightarrow>
                             if resorbed_flag
                             then Inr (False, z_put zz1 (ss_start_ind + 1) z', v', rc')
                             else if rc' > CRC_0
                             then Inr (True, z_put zz1 (ss_start_ind + 1) z', v', rc')
                             else Inr (False, z_put zz1 (ss_start_ind + 1) z',
                                       overwrite v' ss_start_ind ss_cat, rc'))))"

lemma find_unreliable_ge: "find_unreliable v b i = Some u \<Longrightarrow> i \<le> u"
proof (induction v b i rule: find_unreliable.induct)
  case (1 v bound v_ind)
  show ?case
  proof (cases "v_ind \<le> bound \<and> v ! v_ind AND 1 \<noteq> 1")
    case True
    then have "find_unreliable v bound (v_ind + 1) = Some u"
      using "1.prems" by (subst (asm) find_unreliable.simps) simp
    with True have "v_ind + 1 \<le> u" by (intro "1.IH") auto
    then show ?thesis by simp
  next
    case False
    with "1.prems" show ?thesis
      by (subst (asm) find_unreliable.simps) (auto split: if_splits)
  qed
qed

lemma find_reliable_range: "find_reliable v b i = Some r \<Longrightarrow> i \<le> r \<and> r \<le> b"
proof (induction v b i rule: find_reliable.induct)
  case (1 v bound v_ind)
  show ?case
  proof (cases "v_ind \<le> bound \<and> v ! v_ind AND 1 \<noteq> 0")
    case True
    then have "find_reliable v bound (v_ind + 1) = Some r"
      using "1.prems" by (subst (asm) find_reliable.simps) simp
    with True have "v_ind + 1 \<le> r \<and> r \<le> bound" by (intro "1.IH") auto
    then show ?thesis by simp
  next
    case False
    with "1.prems" show ?thesis
      by (subst (asm) find_reliable.simps) (auto split: if_splits)
  qed
qed

lemma extractor_advances:
  "extractor v v_stop_ind v_ind = Some (v_ind', s, e) \<Longrightarrow> v_ind < v_ind' \<and> v_ind' \<le> Suc v_stop_ind"
  by (auto simp: extractor_def split: option.splits
        dest!: find_unreliable_ge find_reliable_range)

text \<open>
  The \<open>while\<close> loop over the extracted windows.  The list \<open>ws\<close> holds the windows in
  the order in which the loop prints their indices.  The result is \<open>(zz, v, rc, ws)\<close>.
\<close>

function untrusted_loop ::
  "nat \<Rightarrow> catpair \<Rightarrow> u16 list \<Rightarrow> nat \<Rightarrow> nat \<Rightarrow> (nat \<times> nat) list
     \<Rightarrow> fault + (catpair \<times> u16 list \<times> nat \<times> (nat \<times> nat) list)" where
  "untrusted_loop v_stop_ind zz v rc extractor_ind ws =
     (case extractor v v_stop_ind extractor_ind of
        None \<Rightarrow> Inr (zz, v, rc, ws)
      | Some (extractor_ind', ss_start_ind, ss_stop_ind) \<Rightarrow>
          (case correct_window zz v ss_start_ind ss_stop_ind rc of
             Inl f \<Rightarrow> Inl f
           | Inr (returned, zz', v', rc') \<Rightarrow>
               if returned then Inr (zz', v', rc', ws @ [(ss_start_ind, ss_stop_ind)])
               else untrusted_loop v_stop_ind zz' v' rc' extractor_ind'
                      (ws @ [(ss_start_ind, ss_stop_ind)])))"
  by pat_completeness auto
termination
  apply (relation "measure (\<lambda>(e, zz, v, rc, i, ws). Suc e - i)")
   apply simp
  apply (auto dest!: extractor_advances)
  done

declare untrusted_loop.simps [simp del]

text \<open>
  The corrector.  The result is \<open>(zz, v, rc, ws)\<close>; \<open>ws\<close> is empty when the second part
  does not run.
\<close>

definition corrector ::
  "catpair \<Rightarrow> u16 list \<Rightarrow> nat \<Rightarrow> nat
     \<Rightarrow> fault + (catpair \<times> u16 list \<times> nat \<times> (nat \<times> nat) list)" where
  "corrector zz v v_length unreliable_count =
     (if cluster_size (snd zz) = 0 \<or> cluster_size (snd zz) = 0 then Inr (zz, v, CRC_7, [])
      else
        (case outlier_correction zz v v_length of
           Inl f \<Rightarrow> Inl f
         | Inr (returned, zz1, v1, rc1) \<Rightarrow>
             if returned \<or> rc1 > CRC_0 then Inr (zz1, v1, rc1, [])
             else if unreliable_count > 0
             then untrusted_loop v_length zz1 v1 rc1 (1 + BORDER_WIDTH) []
             else Inr (zz1, v1, rc1, [])))"

text \<open>
  The length test of the code, on its own \<open>uint16_t\<close> length \<open>ss_len\<close>.
\<close>

definition passes_length_test :: "nat \<times> nat \<Rightarrow> bool" where
  "passes_length_test w \<longleftrightarrow> ss_len (fst w) (snd w) = 4 \<or> ss_len (fst w) (snd w) = 5"

text \<open>
  The length of a window as the specification means it, independent of the code: the number
  of values at the indices from the start index to the stop index, both included.
\<close>

definition window_size :: "nat \<times> nat \<Rightarrow> nat" where
  "window_size w = length [fst w..<Suc (snd w)]"
section \<open>Clusterer (categorizer.cpp, 2.1)\<close>

subsection \<open>Histogram clustering (2.1.1)\<close>

text \<open>
  The variables of the histogram loop that live from one histogram to the next.  The bins
  are \<open>uint8_t\<close> counters that never exceed 255; \<open>inlier_count\<close> is a \<open>uint8_t\<close>.
\<close>

record hstate =
  hz :: categories
  c_ind :: nat
  bin_count :: "nat list"
  h_hit_ind :: "nat list"
  h_next_floor :: u16
  bin_width :: u16
  bin_width_2log :: nat
  overlap_flag :: bool

text \<open>A value and both its neighbours are reliable.\<close>

definition trusted :: "u16 list \<Rightarrow> nat \<Rightarrow> bool" where
  "trusted v v_ind \<longleftrightarrow>
     v ! v_ind AND 1 \<noteq> 1 \<and> v ! (v_ind + 1) AND 1 \<noteq> 1 \<and> v ! (v_ind - 1) AND 1 \<noteq> 1"

text \<open>\<open>b_ind = (v_val - h_floor_val) >> bin_width_2log\<close>, stored in a \<open>uint8_t\<close>.\<close>

definition bin_of :: "u16 \<Rightarrow> u16 \<Rightarrow> nat \<Rightarrow> nat" where
  "bin_of v_val h_floor_val w2 = unat (drop_bit w2 (v_val - h_floor_val)) mod 256"

text \<open>
  2.1.1.2.1 Bin filling.  The state is \<open>(bin_count, h_hit_ind, h_count, h_next_floor)\<close>;
  the result carries the return code (\<open>CRC_0\<close> when the scan reached its end).
\<close>

function bin_filling ::
  "u16 list \<Rightarrow> nat \<Rightarrow> u16 \<Rightarrow> u16 \<Rightarrow> nat \<Rightarrow> nat \<Rightarrow> nat list \<times> nat list \<times> nat \<times> u16
     \<Rightarrow> nat \<times> nat list \<times> nat list \<times> nat \<times> u16" where
  "bin_filling v bound h_floor_val h_ceil_val w2 v_ind (bins, hits, h_count, next_floor) =
     (if v_ind \<le> bound
      then
        (let v_val = v ! v_ind
         in if v_val < h_floor_val \<or> \<not> trusted v v_ind
            then bin_filling v bound h_floor_val h_ceil_val w2 (v_ind + 2)
                   (bins, hits, h_count, next_floor)
            else if v_val \<ge> h_ceil_val
            then bin_filling v bound h_floor_val h_ceil_val w2 (v_ind + 2)
                   (bins, hits, h_count, if v_val < next_floor then v_val else next_floor)
            else
              (let b_ind = bin_of v_val h_floor_val w2
               in if b_ind \<ge> NB then (CRC_10, bins, hits, h_count, next_floor)
                  else if bins ! b_ind \<ge> 255
                  then bin_filling v bound h_floor_val h_ceil_val w2 (v_ind + 2)
                         (bins, hits, h_count, next_floor)
                  else
                    (let bins' = bins[b_ind := bins ! b_ind + 1]
                     in if h_count < NH
                        then (if bins' ! b_ind \<le> FIRST_HITS
                              then bin_filling v bound h_floor_val h_ceil_val w2 (v_ind + 2)
                                     (bins', hits[h_count := v_ind], h_count + 1, next_floor)
                              else bin_filling v bound h_floor_val h_ceil_val w2 (v_ind + 2)
                                     (bins', hits, h_count, next_floor))
                        else (CRC_6, bins', hits, h_count, next_floor))))
      else (CRC_0, bins, hits, h_count, next_floor))"
  by pat_completeness auto
termination
  by (relation "measure (\<lambda>(v, bound, f, c, w, i, s). Suc bound - i)") auto

declare bin_filling.simps [simp del]

text \<open>
  2.1.1.2.2 Bin clustering, the inner loops.  \<open>skip_empty\<close> is the loop
  \<open>while ((b_ind < NB) && (bin_count[b_ind++] == 0))\<close>; it returns \<open>b_ind\<close>.
\<close>

function skip_empty :: "nat list \<Rightarrow> nat \<Rightarrow> nat" where
  "skip_empty bins b_ind =
     (if b_ind < NB
      then (if bins ! b_ind = 0 then skip_empty bins (b_ind + 1) else b_ind + 1)
      else b_ind)"
  by pat_completeness auto
termination
  by (relation "measure (\<lambda>(bins, b). NB - b)") auto

declare skip_empty.simps [simp del]

text \<open>
  The search for the stop bin: more than \<open>MAX_HOLES\<close> consecutive empty bins end the
  cluster.  The result is \<open>(b_ind, bin_stop_ind, inlier_count)\<close>.
\<close>

function hole_scan :: "nat list \<Rightarrow> nat \<Rightarrow> nat \<Rightarrow> nat \<Rightarrow> nat \<times> nat \<times> nat" where
  "hole_scan bins b_ind c_hole_count inliers =
     (if b_ind < NB
      then (if bins ! b_ind > 0
            then hole_scan bins (b_ind + 1) 0
                   (if c_hole_count > 0 then (inliers + 1) mod 256 else inliers)
            else (if c_hole_count + 1 > MAX_HOLES then (b_ind, b_ind - MAX_HOLES, inliers)
                  else hole_scan bins (b_ind + 1) (c_hole_count + 1) inliers))
      else (b_ind, NB, inliers))"
  by pat_completeness auto
termination
  by (relation "measure (\<lambda>(bins, b, h, i). NB - b)") auto

declare hole_scan.simps [simp del]

text \<open>
  The check for overlapping clusters over a run of at least six bins: a sliding sum of
  three bins that descends and then ascends again by more than 3.  The result is
  \<open>Some bin_stop_ind\<close> when an overlap was found, with the new stop bin.
\<close>

function overlap_scan :: "nat list \<Rightarrow> nat \<Rightarrow> nat \<Rightarrow> bool \<Rightarrow> nat \<Rightarrow> nat \<Rightarrow> nat option" where
  "overlap_scan bins bin_stop_ind b_ind ascending c_prev_count c_count =
     (if b_ind < bin_stop_ind
      then
        (let c_count' = c_count + bins ! b_ind
         in if ascending
            then overlap_scan bins bin_stop_ind (b_ind + 1) (\<not> (c_count' + 3 < c_prev_count))
                   c_count' (c_count' - bins ! (b_ind - 2))
            else if c_count' > c_prev_count + 3 then Some (b_ind - 2)
            else overlap_scan bins bin_stop_ind (b_ind + 1) False
                   c_count' (c_count' - bins ! (b_ind - 2)))
      else None)"
  by pat_completeness auto
termination
  by (relation "measure (\<lambda>(bins, e, b, a, p, c). e - b)") auto

declare overlap_scan.simps [simp del]

definition overlap_check :: "nat list \<Rightarrow> nat \<Rightarrow> nat \<Rightarrow> nat option" where
  "overlap_check bins bin_start_ind bin_stop_ind =
     (if bin_stop_ind - bin_start_ind \<ge> 6
      then overlap_scan bins bin_stop_ind (bin_start_ind + 2) True 0
             (bins ! bin_start_ind + bins ! (bin_start_ind + 1))
      else None)"

text \<open>The number of values in the bins of a cluster and the weighted sum of its bins.\<close>

definition cluster_sum :: "nat list \<Rightarrow> nat \<Rightarrow> nat \<Rightarrow> nat" where
  "cluster_sum bins bin_start_ind bin_stop_ind =
     sum_list (map (\<lambda>b. bins ! b) [bin_start_ind..<bin_stop_ind])"

definition cluster_mean :: "nat list \<Rightarrow> nat \<Rightarrow> nat \<Rightarrow> nat" where
  "cluster_mean bins bin_start_ind bin_stop_ind =
     sum_list (map (\<lambda>b. (b - bin_start_ind + 1) * bins ! b) [bin_start_ind..<bin_stop_ind])"

text \<open>Empty the bins \<open>[a, b)\<close>.\<close>

definition clear_bins :: "nat list \<Rightarrow> nat \<Rightarrow> nat \<Rightarrow> nat list" where
  "clear_bins bins a b = fold (\<lambda>i bs. bs[i := 0]) [a..<b] bins"

text \<open>\<open>(bin << bin_width_2log) + h_floor_val\<close> in 16 bits.\<close>

definition bin_value :: "nat \<Rightarrow> nat \<Rightarrow> u16 \<Rightarrow> u16" where
  "bin_value b w2 h_floor_val = push_bit w2 (word_of_nat b) + h_floor_val"

text \<open>
  The record of a cluster at \<open>c_ind\<close>.  The center is computed in 32 bits and masked to
  the 15 upper bits of a \<open>uint16_t\<close>.
\<close>

definition record_cluster :: "categories \<Rightarrow> nat \<Rightarrow> nat \<Rightarrow> nat \<Rightarrow> nat \<Rightarrow> nat \<Rightarrow> nat \<Rightarrow> u16 \<Rightarrow> u16 \<Rightarrow> categories" where
  "record_cluster z ci c_count bin_mean bin_start_ind bin_stop_ind w2 h_floor_val bw =
     z\<lparr>cluster_count := list_update (cluster_count z) ci (word_of_nat c_count),
       cluster_center := list_update (cluster_center z) ci
          ((push_bit w2 (word_of_nat bin_start_ind)
            + word_of_nat ((push_bit w2 bin_mean mod 2 ^ 32) div c_count)
            + h_floor_val - drop_bit 1 bw) AND MSB),
       cluster_floor := list_update (cluster_floor z) ci (bin_value bin_start_ind w2 h_floor_val),
       cluster_ceil := list_update (cluster_ceil z) ci (bin_value bin_stop_ind w2 h_floor_val)\<rparr>"


lemma skip_empty_advances: "b_ind < NB \<Longrightarrow> b_ind < skip_empty bins b_ind"
proof (induction bins b_ind rule: skip_empty.induct)
  case (1 bins b_ind)
  show ?case
  proof (cases "bins ! b_ind = 0 \<and> b_ind + 1 < NB")
    case True
    then have "b_ind + 1 < skip_empty bins (b_ind + 1)" using 1 by auto
    then show ?thesis using 1(2) True by (subst skip_empty.simps) simp
  next
    case False
    then show ?thesis using 1(2)
      by (subst skip_empty.simps) (auto simp: skip_empty.simps [of bins "Suc b_ind"])
  qed
qed

lemma skip_empty_le: "b_ind \<le> NB \<Longrightarrow> skip_empty bins b_ind \<le> NB"
proof (induction bins b_ind rule: skip_empty.induct)
  case (1 bins b_ind)
  show ?case
  proof (cases "b_ind < NB \<and> bins ! b_ind = 0")
    case True
    then have "skip_empty bins (b_ind + 1) \<le> NB" using 1 by auto
    then show ?thesis using True by (subst skip_empty.simps) simp
  next
    case False
    then show ?thesis using 1(2) by (subst skip_empty.simps) auto
  qed
qed

lemma hole_scan_stop:
  "hole_scan bins b_ind h inl = (b2, stop, inl') \<Longrightarrow> b_ind \<le> NB \<Longrightarrow> b2 \<noteq> NB
     \<Longrightarrow> b_ind - h \<le> stop \<and> b2 < NB"
proof (induction bins b_ind h inl rule: hole_scan.induct)
  case (1 bins b_ind c_hole_count inliers)
  show ?case
  proof (cases "b_ind < NB")
    case False
    with "1.prems" show ?thesis by (subst (asm) hole_scan.simps) simp
  next
    case True
    show ?thesis
    proof (cases "bins ! b_ind > 0")
      case occ: True
      then have "hole_scan bins (b_ind + 1) 0
          (if c_hole_count > 0 then (inliers + 1) mod 256 else inliers) = (b2, stop, inl')"
        using "1.prems"(1) True by (subst (asm) hole_scan.simps) simp
      then have "b_ind + 1 - 0 \<le> stop \<and> b2 < NB"
        using True occ "1.prems"(3) by (intro "1.IH"(1)) auto
      then show ?thesis by auto
    next
      case emp: False
      show ?thesis
      proof (cases "c_hole_count + 1 > MAX_HOLES")
        case True
        then have "stop = b_ind - MAX_HOLES \<and> b2 = b_ind"
          using "1.prems"(1) \<open>b_ind < NB\<close> emp by (subst (asm) hole_scan.simps) auto
        with True \<open>b_ind < NB\<close> show ?thesis by (simp add: MAX_HOLES_def)
      next
        case False
        then have "hole_scan bins (b_ind + 1) (c_hole_count + 1) inliers = (b2, stop, inl')"
          using "1.prems"(1) \<open>b_ind < NB\<close> emp by (subst (asm) hole_scan.simps) simp
        then have "b_ind + 1 - (c_hole_count + 1) \<le> stop \<and> b2 < NB"
          using \<open>b_ind < NB\<close> emp False "1.prems"(3) by (intro "1.IH"(2)) auto
        then show ?thesis by simp
      qed
    qed
  qed
qed

lemma overlap_scan_stop:
  "overlap_scan bins e b asc p c = Some t \<Longrightarrow> (if asc then b - 1 else b - 2) \<le> t"
proof (induction bins e b asc p c rule: overlap_scan.induct)
  case (1 bins bin_stop_ind b_ind ascending c_prev_count c_count)
  have lt: "b_ind < bin_stop_ind"
    using "1.prems" by (subst (asm) overlap_scan.simps) (auto split: if_splits)
  define c' where "c' = c_count + bins ! b_ind"
  show ?case
  proof (cases ascending)
    case True
    then have "overlap_scan bins bin_stop_ind (b_ind + 1) (\<not> (c' + 3 < c_prev_count))
        c' (c' - bins ! (b_ind - 2)) = Some t"
      using "1.prems" lt by (subst (asm) overlap_scan.simps) (simp add: Let_def c'_def)
    then have "(if \<not> (c' + 3 < c_prev_count) then b_ind + 1 - 1 else b_ind + 1 - 2) \<le> t"
      using lt True by (intro "1.IH"(1)) (auto simp: c'_def)
    with True show ?thesis by (auto split: if_splits)
  next
    case False
    show ?thesis
    proof (cases "c' > c_prev_count + 3")
      case True
      then have "t = b_ind - 2"
        using "1.prems" lt False by (subst (asm) overlap_scan.simps) (simp add: Let_def c'_def)
      with False show ?thesis by simp
    next
      case ngt: False
      then have "overlap_scan bins bin_stop_ind (b_ind + 1) False c' (c' - bins ! (b_ind - 2)) = Some t"
        using "1.prems" lt False by (subst (asm) overlap_scan.simps) (simp add: Let_def c'_def)
      then have "(if False then b_ind + 1 - 1 else b_ind + 1 - 2) \<le> t"
        using lt False ngt by (intro "1.IH"(2)) (auto simp: c'_def)
      with False show ?thesis by simp
    qed
  qed
qed

lemma overlap_check_stop:
  "overlap_check bins start stop = Some t \<Longrightarrow> start < t"
  using overlap_scan_stop [of bins stop "start + 2" True 0 "bins ! start + bins ! (start + 1)" t]
  by (auto simp: overlap_check_def split: if_splits)

lemma run_stop_advances:
  assumes "b_ind < NB" and "x = skip_empty bins b_ind"
    and "(xc, y) = hole_scan bins x 0 inl" and "(xd, ya) = y" and "xc \<noteq> NB"
  shows "b_ind < (case overlap_check bins (x - 1) xd of None \<Rightarrow> xd | Some t \<Rightarrow> t)"
proof -
  have x: "b_ind < x" "x \<le> NB"
    using assms(1,2) skip_empty_advances [of b_ind bins] skip_empty_le [of b_ind bins] by auto
  have "hole_scan bins x 0 inl = (xc, xd, ya)" using assms(3,4) by simp
  from hole_scan_stop [OF this x(2) assms(5)] have "x \<le> xd" by simp
  then show ?thesis
    using x overlap_check_stop [of bins "x - 1" xd]
    by (cases "overlap_check bins (x - 1) xd") auto
qed

text \<open>
  2.1.1.2.2 Bin clustering, the outer loop.  The state is the histogram state and the
  \<open>outlier_presence_flag\<close>; the result carries the return code.
\<close>

function bin_clustering :: "u16 \<Rightarrow> hstate \<times> bool \<Rightarrow> nat \<Rightarrow> nat \<times> hstate \<times> bool" where
  "bin_clustering h_floor_val (s, opf) b_ind =
     (if b_ind < NB
      then
        (let b1 = skip_empty (bin_count s) b_ind;
             bin_start_ind = b1 - 1;
             w2 = bin_width_2log s
         in if b1 \<ge> NB
            then (if bin_count s ! bin_start_ind > 0
                  then (CRC_0,
                        s\<lparr>h_next_floor := bin_value bin_start_ind w2 h_floor_val,
                          bin_count := (bin_count s)[bin_start_ind := 0]\<rparr>, opf)
                  else (CRC_0, s, opf))
            else if bin_start_ind \<ge> NB then (CRC_11, s, opf)
            else
              (case hole_scan (bin_count s) b1 0 (inlier_count (hz s)) of
                 (b2, bin_stop_ind, inliers) \<Rightarrow>
                   (let s1 = s\<lparr>hz := (hz s)\<lparr>inlier_count := inliers\<rparr>\<rparr>
                    in if b2 = NB
                       then (if bin_stop_ind = NB
                             then (CRC_0,
                                   s1\<lparr>h_next_floor := bin_value bin_start_ind w2 h_floor_val,
                                      bin_count := clear_bins (bin_count s) bin_start_ind NB\<rparr>, opf)
                             else (CRC_12, s1, opf))
                       else if bin_stop_ind \<ge> NB then (CRC_13, s1, opf)
                       else
                         (let ov = overlap_check (bin_count s) bin_start_ind bin_stop_ind;
                              stop' = (case ov of None \<Rightarrow> bin_stop_ind | Some t \<Rightarrow> t);
                              s2 = s1\<lparr>overlap_flag := (overlap_flag s \<or> ov \<noteq> None)\<rparr>;
                              c_count = cluster_sum (bin_count s) bin_start_ind stop';
                              bin_mean = cluster_mean (bin_count s) bin_start_ind stop'
                          in if c_count < MIN_SIZE
                             then bin_clustering h_floor_val (s2, True) (max bin_start_ind stop')
                             else
                               (let s3 = s2\<lparr>bin_count := clear_bins (bin_count s) bin_start_ind stop',
                                           hz := record_cluster (hz s2) (c_ind s) c_count bin_mean
                                                   bin_start_ind stop' w2 h_floor_val (bin_width s),
                                           c_ind := c_ind s + 1\<rparr>
                                in if c_ind s + 1 \<ge> NC
                                   then (CRC_3, s3\<lparr>hz := (hz s3)\<lparr>cluster_size := NC\<rparr>\<rparr>, opf)
                                   else bin_clustering h_floor_val (s3, opf) stop')))))
      else (CRC_0, s, opf))"
  by pat_completeness auto
termination
  apply (relation "measure (\<lambda>(f, sp, b). NB - b)")
  subgoal by simp
  subgoal premises p
    using run_stop_advances [OF p(1) p(2) p(7) p(8) p(10)] p(1,2,3,12,13) by (auto simp: max_def)
  subgoal premises p
    using run_stop_advances [OF p(1) p(2) p(7) p(8) p(10)] p(1,2,3,12,13) by (auto simp: max_def)
  done

declare bin_clustering.simps [simp del]

text \<open>
  2.1.1.2.3 Outlier sieving: the recorded first hits of the bins that are still occupied
  become outliers.  The result is \<open>(rc, z, bin_count)\<close>.
\<close>

function sieve ::
  "u16 list \<Rightarrow> u16 \<Rightarrow> nat \<Rightarrow> nat list \<Rightarrow> nat \<Rightarrow> categories \<times> nat list \<Rightarrow> nat
     \<Rightarrow> nat \<times> categories \<times> nat list" where
  "sieve v h_floor_val w2 hits h_count (z, bins) h_ind =
     (if h_ind < h_count
      then (let v_ind = hits ! h_ind;
                b_ind = bin_of (v ! v_ind) h_floor_val w2
            in if bins ! b_ind > 0
               then (if outlier_size z \<ge> NO then (CRC_5, z, bins)
                     else sieve v h_floor_val w2 hits h_count
                            (add_outlier z v_ind, bins[b_ind := bins ! b_ind - 1]) (h_ind + 1))
               else sieve v h_floor_val w2 hits h_count (z, bins) (h_ind + 1))
      else (CRC_0, z, bins))"
  by pat_completeness auto
termination
  by (relation "measure (\<lambda>(v, f, w, hits, n, zb, i). n - i)") auto

declare sieve.simps [simp del]

text \<open>
  2.1.1.2.4 The bin width of the next histogram: the width is doubled while the next floor
  lies at or above the cumulated ceil \<open>h_width\<close> (a \<open>uint32_t\<close>).  The loop of the code
  does not end once the \<open>uint16_t\<close> width has become zero; that is \<open>None\<close>.
\<close>

function widen :: "u16 \<Rightarrow> nat \<Rightarrow> u16 \<Rightarrow> nat \<Rightarrow> (u16 \<times> nat) option" where
  "widen next_floor h_width bw w2 =
     (if unat next_floor \<ge> h_width
      then (let bw' = push_bit 1 bw
            in if bw' = 0 then None
               else widen next_floor ((h_width + NB * unat bw') mod 2 ^ 32) bw' ((w2 + 1) mod 256))
      else Some (bw, w2))"
  by pat_completeness auto
termination
proof (relation "measure (\<lambda>(nf, h, bw, w2). 65536 - h)", goal_cases)
  case 1
  show ?case by simp
next
  case (2 next_floor h_width bw w2 bw')
  have nz: "0 < unat bw'" using 2 by (simp add: unat_gt_0)
  have "unat next_floor < 65536" using unsigned_less [of next_floor, where 'a = nat] by simp
  then have h: "h_width < 65536" using 2 by simp
  have "unat bw' < 65536" using unsigned_less [of bw', where 'a = nat] by simp
  then have "h_width + NB * unat bw' < 2 ^ 32" using h by (simp add: NB_def)
  then have "(h_width + NB * unat bw') mod 2 ^ 32 = h_width + NB * unat bw'" by simp
  with nz h show ?case by (simp add: NB_def)
qed

declare widen.simps [simp del]

text \<open>
  2.1.1.2 The histogram loop.  One round fills the bins, extracts the clusters, sieves the
  outliers and prepares the next histogram.  The loop ends when no trusted value lies
  above the ceil of the histogram (\<open>h_next_floor = CEIL\<close>); it need not end, so the
  result is an option.  The result carries the return code.
\<close>

definition histogram_ceil :: "hstate \<Rightarrow> u16" where
  "histogram_ceil s =
     (let h_width = (NB * unat (bin_width s)) mod 2 ^ 32;
          h_width' = (unat (h_next_floor s) + h_width) mod 2 ^ 32
      in if h_width' > unat CEIL_U then CEIL_U else word_of_nat h_width')"

text \<open>
  One histogram up to the test for the end of the loop.  The result is
  \<open>(rc, state, h_ceil_val)\<close>.
\<close>

definition histogram_round :: "u16 list \<Rightarrow> nat \<Rightarrow> nat \<Rightarrow> hstate \<Rightarrow> nat \<times> hstate" where
  "histogram_round v v_start_ind v_stop_ind s =
     (let h_floor_val = h_next_floor s;
          h_ceil_val = histogram_ceil s;
          w2 = bin_width_2log s
      in case bin_filling v ((v_stop_ind + 65536 - BORDER_WIDTH) mod 65536) h_floor_val h_ceil_val w2
                ((v_start_ind + BORDER_WIDTH) mod 65536)
                (bin_count s, h_hit_ind s, 0, CEIL_U) of
           (rc, bins, hits, h_count, next_floor) \<Rightarrow>
             (let s1 = s\<lparr>bin_count := bins, h_hit_ind := hits, h_next_floor := next_floor\<rparr>
              in if rc \<noteq> CRC_0 then (rc, s1)
                 else
                   (case bin_clustering h_floor_val (s1, False) 0 of
                      (rc2, s2, outlier_presence_flag) \<Rightarrow>
                        if rc2 \<noteq> CRC_0 then (rc2, s2)
                        else if outlier_presence_flag
                        then (case sieve v h_floor_val w2 hits h_count (hz s2, bin_count s2) 0 of
                                (rc3, z, bins3) \<Rightarrow> (rc3, s2\<lparr>hz := z, bin_count := bins3\<rparr>))
                        else (CRC_0, s2))))"

partial_function (option) histogram_loop :: "u16 list \<Rightarrow> nat \<Rightarrow> nat \<Rightarrow> hstate \<Rightarrow> (nat \<times> hstate) option" where
  "histogram_loop v v_start_ind v_stop_ind s =
     (case histogram_round v v_start_ind v_stop_ind s of
        (rc, s1) \<Rightarrow>
          if rc \<noteq> CRC_0 then Some (rc, s1)
          else if h_next_floor s1 = CEIL_U then Some (CRC_0, s1)
          else
            (case widen (h_next_floor s1 - bin_width s1) (unat (histogram_ceil s))
                    (bin_width s1) (bin_width_2log s1) of
               None \<Rightarrow> None
             | Some (bw, w2) \<Rightarrow>
                 histogram_loop v v_start_ind v_stop_ind
                   (s1\<lparr>h_next_floor := h_next_floor s1 - bin_width s1,
                      bin_width := bw, bin_width_2log := w2\<rparr>)))"

declare histogram_loop.simps [code]

subsection \<open>Post-clustering (2.1.2)\<close>

text \<open>
  2.1.2.1.1 Classification of the border values.  When the scan reaches the end of the
  warm-up zone it jumps to the start of the cool-down zone; for a short trace that jump
  goes backwards, so the result is an option.  The result is \<open>(rc, z)\<close>.
\<close>

definition border_trusted :: "u16 list \<Rightarrow> nat \<Rightarrow> nat \<Rightarrow> nat \<Rightarrow> bool" where
  "border_trusted v v_start_ind v_stop_ind v_ind \<longleftrightarrow>
     v ! v_ind AND 1 \<noteq> 1
     \<and> \<not> (v_ind < v_stop_ind \<and> v ! (v_ind + 1) AND 1 = 1)
     \<and> \<not> (v_ind > v_start_ind \<and> v ! (v_ind - 1) AND 1 = 1)"

partial_function (option) border_loop ::
  "u16 list \<Rightarrow> nat \<Rightarrow> nat \<Rightarrow> categories \<Rightarrow> nat \<Rightarrow> (nat \<times> categories) option" where
  "border_loop v v_start_ind v_stop_ind z v_ind0 =
     (if v_ind0 \<le> v_stop_ind
      then
        (let v_ind = (if v_ind0 = (v_start_ind + BORDER_WIDTH) mod 65536
                      then (v_stop_ind + 65536 - BORDER_WIDTH + 2) mod 65536 else v_ind0)
         in if \<not> border_trusted v v_start_ind v_stop_ind v_ind
            then border_loop v v_start_ind v_stop_ind z ((v_ind + 2) mod 65536)
            else if fst (classifier z (v ! v_ind) C_OPT_3)
            then border_loop v v_start_ind v_stop_ind z ((v_ind + 2) mod 65536)
            else if v_ind > 1
            then (if outlier_size z \<ge> NO then Some (CRC_5, z)
                  else border_loop v v_start_ind v_stop_ind (add_outlier z v_ind)
                         ((v_ind + 2) mod 65536))
            else border_loop v v_start_ind v_stop_ind z ((v_ind + 2) mod 65536))
      else Some (CRC_0, z))"

declare border_loop.simps [code]

text \<open>
  2.1.2.1.2 After the border aggregation the outliers that have become classifiable are
  removed from the table; the state is \<open>(outlier_ind, o_ind)\<close>.
\<close>

function prune_loop :: "categories \<Rightarrow> u16 list \<Rightarrow> nat \<Rightarrow> nat list \<times> nat \<Rightarrow> nat list \<times> nat" where
  "prune_loop z v k (arr, o_ind) =
     (if k < outlier_size z
      then (if \<not> fst (classifier z (v ! (arr ! k)) C_OPT_3)
            then prune_loop z v (k + 1) (arr[o_ind := arr ! k], (o_ind + 1) mod 256)
            else prune_loop z v (k + 1) (arr, o_ind))
      else (arr, o_ind))"
  by pat_completeness auto
termination
  by (relation "measure (\<lambda>(z, v, k, s). outlier_size z - k)") auto

declare prune_loop.simps [simp del]

definition prune :: "categories \<Rightarrow> u16 list \<Rightarrow> categories" where
  "prune z v = (case prune_loop z v 0 (outlier_ind z, 0) of
                  (arr, o_ind) \<Rightarrow> z\<lparr>outlier_ind := arr, outlier_size := o_ind\<rparr>)"

text \<open>
  2.1.2.2 The separator barrier.  \<open>barrier_of\<close> is the barrier that belongs to a
  candidate value: ten times the value, or \<open>CEIL\<close> from \<open>CEIL/10\<close> on.  \<open>raise_loop\<close> is
  the loop over the outliers: the highest outlier value below the barrier (0 when there
  is none).
\<close>

definition barrier_of :: "u16 \<Rightarrow> u16" where
  "barrier_of v_old_barrier = (if v_old_barrier < 6500 then 10 * v_old_barrier else CEIL_U)"

function raise_loop :: "categories \<Rightarrow> u16 list \<Rightarrow> u16 \<Rightarrow> nat \<Rightarrow> u16 \<Rightarrow> u16" where
  "raise_loop z v barrier o_ind v_new_barrier =
     (if o_ind < outlier_size z
      then (let v_val = v ! (outlier_ind z ! o_ind)
            in raise_loop z v barrier (o_ind + 1)
                 (if v_val < barrier \<and> v_val > v_new_barrier then v_val else v_new_barrier))
      else v_new_barrier)"
  by pat_completeness auto
termination
  by (relation "measure (\<lambda>(z, v, b, i, n). outlier_size z - i)") auto

declare raise_loop.simps [simp del]

definition raise :: "categories \<Rightarrow> u16 list \<Rightarrow> u16 \<Rightarrow> u16" where
  "raise z v v_old_barrier = raise_loop z v (barrier_of v_old_barrier) 0 0"

function barrier_loop :: "categories \<Rightarrow> u16 list \<Rightarrow> u16 \<Rightarrow> u16 \<Rightarrow> categories" where
  "barrier_loop z v v_old_barrier v_new_barrier =
     (if v_new_barrier > v_old_barrier
      then barrier_loop (z\<lparr>separator_barrier := barrier_of v_new_barrier\<rparr>) v
             v_new_barrier (raise z v v_new_barrier)
      else z)"
  by pat_completeness auto
termination
proof (relation "measure (\<lambda>(z, v, old, new). 65536 - unat old)", goal_cases)
  case 1
  show ?case by simp
next
  case (2 z v v_old_barrier v_new_barrier)
  have "unat v_new_barrier < 65536"
    using unsigned_less [of v_new_barrier, where 'a = nat] by simp
  with 2 show ?case by (simp add: word_less_nat_alt)
qed

declare barrier_loop.simps [simp del]

definition separator_stage :: "categories \<Rightarrow> u16 list \<Rightarrow> categories" where
  "separator_stage z v =
     barrier_loop z v 0 (cluster_ceil z ! ((cluster_size z + 255) mod 256))"

text \<open>Post-clustering as a whole; the result is \<open>(z, rc)\<close>.\<close>

definition post_clustering :: "categories \<Rightarrow> u16 list \<Rightarrow> nat \<Rightarrow> nat \<Rightarrow> (categories \<times> nat) option" where
  "post_clustering z v v_start_ind v_stop_ind =
     (case border_loop v v_start_ind v_stop_ind z v_start_ind of
        None \<Rightarrow> None
      | Some (rc, z1) \<Rightarrow>
          if rc \<noteq> CRC_0 then Some (z1, rc)
          else
            (case aggregator z1 v MIN_SIZE of
               (z2, rc2) \<Rightarrow>
                 (let z3 = z2\<lparr>aggreg_size_1 := aggreg_size_2 z2\<rparr>
                  in if rc2 > CRC_0 then Some (z3, rc2)
                     else
                       (let z4 = separator_stage (prune z3 v) v
                        in Some (z4\<lparr>outlier_ind := sort_asc (outlier_ind z4) (outlier_size z4)\<rparr>,
                                 CRC_0)))))"

text \<open>
  The clusterer.  The tables of \<open>z\<close> and its separator barrier come in with the values
  the caller left in them; the bins are emptied, the buffer of the first hits is written
  before it is read.  The result is \<open>(z, overlap_flag, rc)\<close>.
\<close>

definition clusterer_init :: "categories \<Rightarrow> bool \<Rightarrow> hstate" where
  "clusterer_init z overlap =
     \<lparr> hz = z\<lparr>cluster_size := 0, aggreg_size_1 := 0, aggreg_size_2 := 0,
               outlier_size := 0, inlier_count := 0\<rparr>,
       c_ind = 0,
       bin_count = replicate NB 0,
       h_hit_ind = replicate NH 0,
       h_next_floor = START_VAL,
       bin_width = 16,
       bin_width_2log = 4,
       overlap_flag = overlap \<rparr>"

definition clusterer ::
  "categories \<Rightarrow> u16 list \<Rightarrow> nat \<Rightarrow> nat \<Rightarrow> bool \<Rightarrow> (categories \<times> bool \<times> nat) option" where
  "clusterer z v v_start_ind v_stop_ind overlap =
     (case histogram_loop v v_start_ind v_stop_ind (clusterer_init z overlap) of
        None \<Rightarrow> None
      | Some (rc, s) \<Rightarrow>
          if rc \<noteq> CRC_0 then Some (hz s, overlap_flag s, rc)
          else
            (let z1 = (hz s)\<lparr>cluster_size := c_ind s\<rparr>
             in if cluster_size z1 = 0 then Some (z1, overlap_flag s, CRC_7)
                else (case post_clustering z1 v v_start_ind v_stop_ind of
                        None \<Rightarrow> None
                      | Some (z2, rc2) \<Rightarrow> Some (z2, overlap_flag s, rc2))))"

section \<open>Sequence printer (categorizer\_lib.cpp, 3.5)\<close>

text \<open>
  The printed text is a string; \<open>Serial.println\<close> ends a line with carriage return and
  line feed, and \<open>Serial.print\<close> writes a number in decimal.
\<close>

definition eol :: string where
  "eol = [char_of (13 :: nat), char_of (10 :: nat)]"

function dec :: "nat \<Rightarrow> string" where
  "dec n = (if n < 10 then [char_of (48 + n)] else dec (n div 10) @ [char_of (48 + n mod 10)])"
  by pat_completeness auto
termination
  by (relation "measure id") auto

declare dec.simps [simp del]

text \<open>The row of the sequence index: a digit every tenth value, blanks between.\<close>

function index_row :: "int \<Rightarrow> int \<Rightarrow> nat \<Rightarrow> nat \<Rightarrow> string" where
  "index_row v_length v_ind j k =
     (if v_ind \<le> v_length
      then (if j = 10
            then (let k' = (if k + 1 = 10 then 0 else k + 1)
                  in dec k' @ index_row v_length (v_ind + 2) 2 k')
            else '' '' @ index_row v_length (v_ind + 2) (j + 2) k)
      else [])"
  by pat_completeness auto
termination
  by (relation "measure (\<lambda>(n, i, j, k). nat (n + 1 - i))") auto

declare index_row.simps [simp del]

text \<open>The row of the reliability marks of one polarity.\<close>

function mark_row :: "u16 list \<Rightarrow> int \<Rightarrow> int \<Rightarrow> string" where
  "mark_row v v_length v_ind =
     (if v_ind \<le> v_length
      then (if v ! nat v_ind = 0 then '' ''
            else if v ! nat v_ind AND 1 = 0 then '' '' else ''!'')
           @ mark_row v v_length (v_ind + 2)
      else [])"
  by pat_completeness auto
termination
  by (relation "measure (\<lambda>(v, n, i). nat (n + 1 - i))") auto

declare mark_row.simps [simp del]

text \<open>The character(s) printed for one value.\<close>

definition category_mark :: "categories \<Rightarrow> u16 \<Rightarrow> string" where
  "category_mark z v_val =
     (if v_val = 0 then '' ''
      else if v_val \<ge> separator_barrier z then ''*''
      else (case classifier z v_val C_OPT_3 of
              (near, cat_ind, cat_val) \<Rightarrow>
                if near then (if cat_ind < 10 then dec cat_ind else dec (87 + cat_ind))
                else if cat_ind = 0 \<and> v_val < cat_val then ''-'' else ''?''))"

function category_row :: "categories \<Rightarrow> u16 list \<Rightarrow> int \<Rightarrow> int \<Rightarrow> string" where
  "category_row z v v_length v_ind =
     (if v_ind \<le> v_length
      then category_mark z (v ! nat v_ind) @ category_row z v v_length (v_ind + 2)
      else [])"
  by pat_completeness auto
termination
  by (relation "measure (\<lambda>(z, v, n, i). nat (n + 1 - i))") auto

declare category_row.simps [simp del]

text \<open>The table of the categories: cluster centers, a semicolon, aggregation centers.\<close>

definition tab :: string where
  "tab = [char_of (9 :: nat)]"

definition center_row :: "categories \<Rightarrow> string" where
  "center_row z =
     concat (map (\<lambda>i. tab @ dec (unat (cluster_center z ! i))) [0..<cluster_size z])
     @ '';''
     @ concat (map (\<lambda>i. tab @ dec (unat (aggreg_center z ! i))) [0..<aggreg_size_2 z])"

definition sequence_printer :: "catpair \<Rightarrow> u16 list \<Rightarrow> int \<Rightarrow> string" where
  "sequence_printer zz v v_length0 =
     (let v_length = (if v ! nat (v_length0 + 1) \<noteq> 0 \<and> v ! nat (v_length0 + 2) \<noteq> 0
                      then v_length0 + 2 else v_length0)
      in ''ind : '' @ dec 0 @ index_row v_length 0 2 0 @ eol
         @ ''    : '' @ mark_row v v_length 1 @ eol
         @ ''HIGH: '' @ category_row (snd zz) v v_length 1 @ eol
         @ ''LOW : '' @ category_row (fst zz) v v_length 2 @ eol
         @ ''    : '' @ mark_row v v_length 2 @ eol
         @ eol
         @ ''Categories'' @ eol
         @ ''ind : ''
         @ concat (map (\<lambda>i. tab @ dec i)
             [0..<max (cluster_size (snd zz) + aggreg_size_2 (snd zz))
                      (cluster_size (fst zz) + aggreg_size_2 (fst zz))])
         @ eol
         @ ''HIGH: '' @ center_row (snd zz) @ eol
         @ ''LOW : '' @ center_row (fst zz) @ eol)"

section \<open>Categorizer (categorizer.cpp, 2.)\<close>

text \<open>
  The result of the categorizer: the return code, the two category sets, the duration
  array and the text of the categorized sequence (absent when the categorizer returns
  with an error code).  The messages that the clusterer and the corrector print on their
  way are not part of the model.
\<close>

record outcome =
  return_code :: nat
  categories_of :: catpair
  durations :: "u16 list"
  printed :: "string option"

text \<open>
  \<open>None\<close>: a loop of the clusterer does not end.  \<open>Some (Inl f)\<close>: the code does
  something that C leaves undefined.
\<close>

definition categorizer ::
  "catpair \<Rightarrow> u16 list \<Rightarrow> nat \<Rightarrow> nat \<Rightarrow> (fault + outcome) option" where
  "categorizer zz signal_duration sequence_length unreliable_count =
     (case clusterer (snd zz) signal_duration 1 ((sequence_length + 65535) mod 65536) False of
        None \<Rightarrow> None
      | Some (z_high, overlap1, rc1) \<Rightarrow>
          if rc1 \<noteq> CRC_0
          then Some (Inr \<lparr>return_code = rc1, categories_of = (fst zz, z_high),
                          durations = signal_duration, printed = None\<rparr>)
          else
            (case clusterer (fst zz) signal_duration 2 sequence_length overlap1 of
               None \<Rightarrow> None
             | Some (z_low, cluster_overlap, rc2) \<Rightarrow>
                 if rc2 \<noteq> CRC_0
                 then Some (Inr \<lparr>return_code = rc2, categories_of = (z_low, z_high),
                                 durations = signal_duration, printed = None\<rparr>)
                 else if \<not> cluster_overlap
                 then (case corrector (z_low, z_high) signal_duration sequence_length
                              unreliable_count of
                         Inl f \<Rightarrow> Some (Inl f)
                       | Inr (zz', v', rc3, ws) \<Rightarrow>
                           if rc3 \<noteq> CRC_0
                           then Some (Inr \<lparr>return_code = rc3, categories_of = zz',
                                           durations = v', printed = None\<rparr>)
                           else Some (Inr \<lparr>return_code = CRC_0, categories_of = zz',
                                           durations = v',
                                           printed = Some (sequence_printer zz' v'
                                                             (int sequence_length))\<rparr>))
                 else Some (Inr \<lparr>return_code = CRC_0, categories_of = (z_low, z_high),
                                 durations = signal_duration,
                                 printed = Some (sequence_printer (z_low, z_high)
                                                   signal_duration (int sequence_length))\<rparr>)))"


section \<open>The separator barrier as the specification words it\<close>

text \<open>
  These three definitions follow the words of the specification, not the code: the values
  of the outliers, one raise of the barrier to the highest outlier value below ten times
  the barrier, and the barrier that is emitted for a barrier that no raise changes any
  more.  They are compared with \<open>separator_stage\<close> below.
\<close>

definition outlier_values :: "categories \<Rightarrow> u16 list \<Rightarrow> nat set" where
  "outlier_values z v = (\<lambda>k. unat (v ! (outlier_ind z ! k))) ` {0..<outlier_size z}"

definition spec_raise :: "categories \<Rightarrow> u16 list \<Rightarrow> nat \<Rightarrow> nat" where
  "spec_raise z v b = Max (insert b {x \<in> outlier_values z v. x < 10 * b})"

definition spec_separator :: "nat \<Rightarrow> nat" where
  "spec_separator b = (if b < CEIL div 10 then 10 * b else CEIL)"

text \<open>What a run of the categorizer leaves for the LOW durations: return code, number of
  clusters, ceil of the last cluster, separator barrier.\<close>

definition low_summary :: "(fault + outcome) option \<Rightarrow> (fault + nat \<times> nat \<times> u16 \<times> u16) option" where
  "low_summary r =
     map_option (map_sum id (\<lambda>r. let z = fst (categories_of r)
                                  in (return_code r, cluster_size z,
                                      cluster_ceil z ! (cluster_size z - 1),
                                      separator_barrier z))) r"
section \<open>Concrete category sets and traces\<close>

definition z_two :: categories where
  "z_two = \<lparr> cluster_size = 2,
      cluster_count = [5, 7, 0, 0, 0, 0, 0, 0],
      cluster_ceil = [450, 1300, 0, 0, 0, 0, 0, 0],
      cluster_center = [400, 1200, 0, 0, 0, 0, 0, 0],
      cluster_floor = [350, 1100, 0, 0, 0, 0, 0, 0],
      outlier_size = 0,
      outlier_ind = replicate 16 0,
      aggreg_size_1 = 0, aggreg_size_2 = 1,
      aggreg_center = [640, 0, 0, 0, 0, 0, 0, 0],
      separator_barrier = 13000, inlier_count = 0 \<rparr>"

definition z_one :: categories where
  "z_one = \<lparr> cluster_size = 1,
      cluster_count = [9, 0, 0, 0, 0, 0, 0, 0],
      cluster_ceil = [1050, 0, 0, 0, 0, 0, 0, 0],
      cluster_center = [1000, 0, 0, 0, 0, 0, 0, 0],
      cluster_floor = [950, 0, 0, 0, 0, 0, 0, 0],
      outlier_size = 0,
      outlier_ind = replicate 16 0,
      aggreg_size_1 = 0, aggreg_size_2 = 1,
      aggreg_center = [640, 0, 0, 0, 0, 0, 0, 0],
      separator_barrier = 10500, inlier_count = 0 \<rparr>"

text \<open>
  A window of five values at the indices 10 to 14: a reliable front value, three flagged
  values whose sum is near the center 1200, and a reliable back value.
\<close>

definition v_spike :: "u16 list" where
  "v_spike = [0, 400, 1200, 400, 1200, 400, 1200, 400, 1200, 400,
              400, 501, 201, 507, 1200, 400]"

definition cat_spike :: "u16 list" where
  "cat_spike = [400, 400, 400, 400, 1200]"

text \<open>
  A category set whose outlier table is full, and a window whose virtual triple (643) is
  near the aggregation at 640.
\<close>

definition z_full :: categories where
  "z_full = z_one \<lparr> outlier_size := 16,
      outlier_ind := [17, 19, 21, 23, 25, 27, 29, 31, 33, 35, 37, 39, 41, 43, 45, 47] \<rparr>"

definition v_drop :: "u16 list" where
  "v_drop = [0, 1000, 1000, 1000, 1000, 1000, 1000, 1000, 1000, 1000,
             1000, 301, 41, 301, 1000, 1000]"

definition cat_drop :: "u16 list" where
  "cat_drop = [1000, 1000, 1000, 1000, 1000]"

text \<open>
  Two category sets for the corrector: LOW durations around 1200, HIGH durations around
  400.  In \<open>z_hi_outlier\<close> the HIGH value at index 21 is an outlier.
\<close>

definition z_lo :: categories where
  "z_lo = \<lparr> cluster_size = 1,
      cluster_count = [14, 0, 0, 0, 0, 0, 0, 0],
      cluster_ceil = [1296, 0, 0, 0, 0, 0, 0, 0],
      cluster_center = [1200, 0, 0, 0, 0, 0, 0, 0],
      cluster_floor = [1104, 0, 0, 0, 0, 0, 0, 0],
      outlier_size = 0,
      outlier_ind = replicate 16 0,
      aggreg_size_1 = 0, aggreg_size_2 = 0,
      aggreg_center = replicate 8 0,
      separator_barrier = 12960, inlier_count = 0 \<rparr>"

definition z_hi :: categories where
  "z_hi = \<lparr> cluster_size = 1,
      cluster_count = [14, 0, 0, 0, 0, 0, 0, 0],
      cluster_ceil = [448, 0, 0, 0, 0, 0, 0, 0],
      cluster_center = [400, 0, 0, 0, 0, 0, 0, 0],
      cluster_floor = [352, 0, 0, 0, 0, 0, 0, 0],
      outlier_size = 0,
      outlier_ind = replicate 16 0,
      aggreg_size_1 = 0, aggreg_size_2 = 0,
      aggreg_center = replicate 8 0,
      separator_barrier = 4480, inlier_count = 0 \<rparr>"

definition z_hi_outlier :: categories where
  "z_hi_outlier = z_hi \<lparr> outlier_size := 1, outlier_ind := 21 # replicate 15 0 \<rparr>"

text \<open>
  A trace of 36 durations (index 0 is unused, two end records follow).  In \<open>v_quad\<close> the
  values at 21 and 22 are flagged unreliable, and 601 is far from every HIGH category.  In
  \<open>v_outlier\<close> the HIGH value 480 at index 21 stands between the LOW values 1120 and
  1200.
\<close>

definition v_quad :: "u16 list" where
  "v_quad = [0, 400, 1200, 400, 1200, 400, 1200, 400, 1200, 400, 1200,
             400, 1200, 400, 1200, 400, 1200, 400, 1200, 400, 1200,
             601, 1201, 400, 1200, 400, 1200, 400, 1200, 400, 1200,
             400, 1200, 400, 1200, 400, 1200, 400, 65000]"

definition v_outlier :: "u16 list" where
  "v_outlier = [0, 400, 1200, 400, 1200, 400, 1200, 400, 1200, 400, 1200,
                400, 1200, 400, 1200, 400, 1200, 400, 1200, 400, 1120,
                480, 1200, 400, 1200, 400, 1200, 400, 1200, 400, 1200,
                400, 1200, 400, 1200, 400, 1200, 400, 65000]"

text \<open>
  The same trace with a single unreliable value (index 21) and with four unreliable values
  in a row (indices 21 to 24): the extracted windows hold three and six values.
\<close>

definition v_single :: "u16 list" where
  "v_single = [0, 400, 1200, 400, 1200, 400, 1200, 400, 1200, 400, 1200,
               400, 1200, 400, 1200, 400, 1200, 400, 1200, 400, 1200,
               601, 1200, 400, 1200, 400, 1200, 400, 1200, 400, 1200,
               400, 1200, 400, 1200, 400, 1200, 400, 65000]"

definition v_six :: "u16 list" where
  "v_six = [0, 400, 1200, 400, 1200, 400, 1200, 400, 1200, 400, 1200,
            400, 1200, 400, 1200, 400, 1200, 400, 1200, 400, 1200,
            601, 1201, 401, 1201, 400, 1200, 400, 1200, 400, 1200,
            400, 1200, 400, 1200, 400, 1200, 400, 65000]"

text \<open>The trace \<open>v_quad\<close> after the best-fit overwrite of its window.\<close>

definition v_quad_fitted :: "u16 list" where
  "v_quad_fitted = [0, 400, 1200, 400, 1200, 400, 1200, 400, 1200, 400, 1200,
             400, 1200, 400, 1200, 400, 1200, 400, 1200, 400, 1200,
             400, 1200, 400, 1200, 400, 1200, 400, 1200, 400, 1200,
             400, 1200, 400, 1200, 400, 1200, 400, 65000]"


text \<open>
  A category set as the receiver holds it before its first trace (the global of the
  sketch is zero-initialised).
\<close>

definition z_blank :: categories where
  "z_blank = \<lparr> cluster_size = 0,
      cluster_count = replicate 8 0, cluster_ceil = replicate 8 0,
      cluster_center = replicate 8 0, cluster_floor = replicate 8 0,
      outlier_size = 0, outlier_ind = replicate 16 0,
      aggreg_size_1 = 0, aggreg_size_2 = 0, aggreg_center = replicate 8 0,
      separator_barrier = 0, inlier_count = 0 \<rparr>"

text \<open>
  A trace of 58 durations whose HIGH values form two groups around 384 and 464 with a
  single value (424) between them: the sliding sum over the bins descends and rises
  again, and the clusterer raises the overlap flag.
\<close>

definition v_bimodal :: "u16 list" where
  "v_bimodal = [0, 376, 1200, 376, 1200, 376, 1200, 376, 1200,
     376, 1200, 376, 1200, 376, 1200, 376, 1200, 376, 1200,
     392, 1200, 392, 1200, 392, 1200, 392, 1200, 392, 1200,
     424, 1200,
     456, 1200, 456, 1200, 456, 1200, 456, 1200, 456, 1200,
     472, 1200, 472, 1200, 472, 1200, 472, 1200, 472, 1200,
     376, 1200, 376, 1200, 376, 1200, 376, 1200,
     400, 65000]"

definition z_bimodal_high :: categories where
  "z_bimodal_high = z_blank\<lparr>cluster_size := 2, cluster_count := [10, 11, 0, 0, 0, 0, 0, 0],
             cluster_ceil := [418, 482, 0, 0, 0, 0, 0, 0],
             cluster_center := [386, 462, 0, 0, 0, 0, 0, 0],
             cluster_floor := [370, 418, 0, 0, 0, 0, 0, 0],
             separator_barrier := 4820, inlier_count := 3\<rparr>"

definition z_bimodal_low :: categories where
  "z_bimodal_low = z_blank\<lparr>cluster_size := 1, cluster_count := [21, 0, 0, 0, 0, 0, 0, 0],
             cluster_ceil := [1216, 0, 0, 0, 0, 0, 0, 0],
             cluster_center := [1200, 0, 0, 0, 0, 0, 0, 0],
             cluster_floor := [1184, 0, 0, 0, 0, 0, 0, 0],
             separator_barrier := 12160\<rparr>"

text \<open>
  Two traces as the receiver may record them one after the other, and the category sets
  that the first one leaves behind.  The first has LOW durations of 800.  In the second,
  three long LOW durations (64600, 64700, 64800) fall into the bin \<open>[64512, 65536)\<close> of
  a histogram with floor 34816 and bin width 1024: the ceil of their cluster is 65536,
  which is 0 in a \<open>uint16_t\<close>.
\<close>

definition v_first :: "u16 list" where
  "v_first = [0, 400, 800, 400, 800, 400, 800, 400, 800, 400, 800,
              400, 800, 400, 800, 400, 800, 400, 800, 400, 800,
              400, 800, 400, 800, 400, 65000]"

definition z_first_low :: categories where
  "z_first_low = z_blank\<lparr>cluster_size := 1, cluster_count := [4, 0, 0, 0, 0, 0, 0, 0],
      cluster_ceil := [816, 0, 0, 0, 0, 0, 0, 0],
      cluster_center := [800, 0, 0, 0, 0, 0, 0, 0],
      cluster_floor := [784, 0, 0, 0, 0, 0, 0, 0],
      separator_barrier := 8160\<rparr>"

definition z_first_high :: categories where
  "z_first_high = z_blank\<lparr>cluster_size := 1, cluster_count := [4, 0, 0, 0, 0, 0, 0, 0],
      cluster_ceil := [402, 0, 0, 0, 0, 0, 0, 0],
      cluster_center := [394, 0, 0, 0, 0, 0, 0, 0],
      cluster_floor := [386, 0, 0, 0, 0, 0, 0, 0],
      separator_barrier := 4020\<rparr>"

definition v_wrap :: "u16 list" where
  "v_wrap = [0, 400, 1200, 400, 1200, 400, 1200, 400, 1200,
     400, 1200, 400, 1200, 400, 1200, 400, 34848, 400, 64600, 400, 64700, 400, 64800,
     400, 1200, 400, 1200, 400, 1200, 400, 1200,
     400, 65000]"
section \<open>Properties of the classifier\<close>

lemma higher_ceil_skip:
  assumes "\<forall>j. i \<le> j \<and> j < k \<longrightarrow> \<not> v < cluster_ceil z ! j"
    and "i \<le> k" and "k < cluster_size z" and "v < cluster_ceil z ! k"
  shows "higher_ceil z v i = k"
  using assms
proof (induction z v i rule: higher_ceil.induct)
  case (1 z v_val cat_ind)
  show ?case
  proof (cases "cat_ind = k")
    case True
    with 1 show ?thesis by (simp add: higher_ceil.simps)
  next
    case False
    with 1 have lt: "cat_ind < k" by simp
    with 1 have nc: "\<not> v_val < cluster_ceil z ! cat_ind" by simp
    have "higher_ceil z v_val (cat_ind + 1) = k"
      using 1 lt nc by (intro "1.IH") auto
    with lt nc 1 show ?thesis by (subst higher_ceil.simps) simp
  qed
qed

text \<open>
  C3: for a category set with at least one cluster whose clusters are in ascending order
  and do not overlap, a value inside the range \<open>[floor, ceil)\<close> of cluster \<open>k\<close> is
  classified as near, with index \<open>k\<close> and the center of cluster \<open>k\<close>, for every option.
\<close>

theorem classifier_inside_cluster:
  assumes "1 \<le> cluster_size z" and "cluster_size z \<le> NC"
    and "clusters_ascending z"
    and "k < cluster_size z"
    and "cluster_floor z ! k \<le> v" and "v < cluster_ceil z ! k"
  shows "classifier z v option = (True, k, cluster_center z ! k)"
proof -
  have "\<not> v < cluster_ceil z ! j" if "j < k" for j
  proof -
    have "cluster_ceil z ! j \<le> cluster_floor z ! k"
      using assms(3,4) that by (simp add: clusters_ascending_def)
    with assms(5) show ?thesis by simp
  qed
  then have "higher_ceil z v 0 = k"
    using assms(4,6) by (intro higher_ceil_skip) auto
  with assms(4,5) show ?thesis by (simp add: classifier_def)
qed

lemma z_two_ascending: "clusters_ascending z_two"
  by code_simp

theorem classifier_inside_cluster_witness:
  "classifier z_two 1150 C_OPT_4 = (True, 1, 1200)"
  using classifier_inside_cluster [of z_two 1 1150 C_OPT_4] z_two_ascending
  by (simp add: z_two_def NC_def)

section \<open>The classifier outside the clusters\<close>

lemma fold_argmin:
  fixes f :: "nat \<Rightarrow> nat"
  defines "r n \<equiv> fold (\<lambda>i b. if f i < f b then i else b) [0..<Suc n] 0"
  shows "r n < Suc n \<and> (\<forall>j < Suc n. f (r n) \<le> f j) \<and> (\<forall>j < r n. f (r n) < f j)"
proof (induction n)
  case 0
  show ?case by (simp add: r_def)
next
  case (Suc n)
  have step: "r (Suc n) = (if f (Suc n) < f (r n) then Suc n else r n)"
    by (simp add: r_def)
  show ?case
  proof (cases "f (Suc n) < f (r n)")
    case True
    then have "r (Suc n) = Suc n" by (simp add: step)
    moreover have "f (Suc n) \<le> f j" if "j < Suc (Suc n)" for j
      using that Suc True by (cases "j = Suc n") (auto simp: less_Suc_eq intro: order_trans less_imp_le)
    moreover have "f (Suc n) < f j" if "j < Suc n" for j
      using that Suc True by (auto intro: less_le_trans)
    ultimately show ?thesis by simp
  next
    case False
    then have "r (Suc n) = r n" by (simp add: step)
    with Suc False show ?thesis by (auto simp: less_Suc_eq)
  qed
qed

lemma argmin_unique:
  fixes f :: "nat \<Rightarrow> nat"
  assumes "\<forall>j < n. f k \<le> f j" "\<forall>j < k. f k < f j" "k < n"
    and "\<forall>j < n. f k' \<le> f j" "\<forall>j < k'. f k' < f j" "k' < n"
  shows "k = k'"
proof (rule ccontr)
  assume "k \<noteq> k'"
  then consider "k < k'" | "k' < k" by linarith
  then show False
  proof cases
    case 1
    with assms have "f k' < f k" "f k \<le> f k'" by auto
    then show False by simp
  next
    case 2
    with assms have "f k < f k'" "f k' \<le> f k" by auto
    then show False by simp
  qed
qed

lemma nearest_cluster_eqI:
  assumes "k < cluster_size z"
    and "\<forall>j < cluster_size z. dist v (cluster_center z ! k) \<le> dist v (cluster_center z ! j)"
    and "\<forall>j < k. dist v (cluster_center z ! k) < dist v (cluster_center z ! j)"
  shows "nearest_cluster z v = k"
proof -
  obtain n where n: "cluster_size z = Suc n" using assms(1) by (cases "cluster_size z") auto
  let ?f = "\<lambda>j. dist v (cluster_center z ! j)"
  have r: "nearest_cluster z v < Suc n \<and> (\<forall>j < Suc n. ?f (nearest_cluster z v) \<le> ?f j)
      \<and> (\<forall>j < nearest_cluster z v. ?f (nearest_cluster z v) < ?f j)"
    unfolding nearest_cluster_def n by (rule fold_argmin)
  show ?thesis
    by (rule argmin_unique [of "Suc n" ?f "nearest_cluster z v" k]) (use r assms n in auto)
qed


lemma higher_ceil_props:
  assumes "i \<le> cluster_size z"
  shows "i \<le> higher_ceil z v i \<and> higher_ceil z v i \<le> cluster_size z
     \<and> (\<forall>j. i \<le> j \<and> j < higher_ceil z v i \<longrightarrow> \<not> v < cluster_ceil z ! j)
     \<and> (higher_ceil z v i < cluster_size z \<longrightarrow> v < cluster_ceil z ! higher_ceil z v i)"
  using assms
proof (induction z v i rule: higher_ceil.induct)
  case (1 z v_val cat_ind)
  show ?case
  proof (cases "cat_ind < cluster_size z \<and> \<not> v_val < cluster_ceil z ! cat_ind")
    case True
    then have eq: "higher_ceil z v_val cat_ind = higher_ceil z v_val (cat_ind + 1)"
      by (subst higher_ceil.simps) simp
    have ih: "cat_ind + 1 \<le> higher_ceil z v_val (cat_ind + 1)
       \<and> higher_ceil z v_val (cat_ind + 1) \<le> cluster_size z
       \<and> (\<forall>j. cat_ind + 1 \<le> j \<and> j < higher_ceil z v_val (cat_ind + 1) \<longrightarrow> \<not> v_val < cluster_ceil z ! j)
       \<and> (higher_ceil z v_val (cat_ind + 1) < cluster_size z
            \<longrightarrow> v_val < cluster_ceil z ! higher_ceil z v_val (cat_ind + 1))"
      using True by (intro "1.IH") auto
    have "\<not> v_val < cluster_ceil z ! j"
      if "cat_ind \<le> j" "j < higher_ceil z v_val (cat_ind + 1)" for j
      using that ih True by (cases "j = cat_ind") auto
    with ih show ?thesis unfolding eq by auto
  next
    case False
    then have "higher_ceil z v_val cat_ind = cat_ind"
      by (subst higher_ceil.simps) auto
    with False 1 show ?thesis by auto
  qed
qed

lemma aggreg_scan_fold:
  assumes "unat d = dist v cv" and "cluster_size z + aggreg_size_2 z \<le> 256"
    and "n = aggreg_size_2 z - a"
  shows "\<exists>d'. aggreg_scan z v a (ci, cv, d) =
           (fst (fold (adopt z v) [a..<aggreg_size_2 z] (ci, cv)),
            snd (fold (adopt z v) [a..<aggreg_size_2 z] (ci, cv)), d')
         \<and> unat d' = dist v (snd (fold (adopt z v) [a..<aggreg_size_2 z] (ci, cv)))"
  using assms
proof (induction n arbitrary: a ci cv d)
  case 0
  then have "\<not> a < aggreg_size_2 z" by simp
  then show ?case using 0(1) by (subst aggreg_scan.simps) simp
next
  case (Suc n)
  then have lt: "a < aggreg_size_2 z" by simp
  define d1 where "d1 = aggreg_center z ! a"
  define d2 where "d2 = (if v > d1 then v - d1 else d1 - v)"
  have d2: "unat d2 = dist v d1"
    by (auto simp: d2_def dist_def unat_sub word_le_nat_alt word_less_nat_alt)
  have cmp: "d2 < d \<longleftrightarrow> dist v d1 < dist v cv"
    using d2 Suc.prems(1) by (simp add: word_less_nat_alt)
  have md: "(cluster_size z + a) mod 256 = cluster_size z + a"
    using lt Suc.prems(2) by simp
  have up: "[a..<aggreg_size_2 z] = a # [a + 1..<aggreg_size_2 z]"
    using lt by (simp add: upt_conv_Cons)
  have step: "aggreg_scan z v a (ci, cv, d)
        = aggreg_scan z v (a + 1)
            (if d2 < d then (cluster_size z + a, d1, d2) else (ci, cv, d))"
    unfolding d1_def d2_def
    by (subst aggreg_scan.simps) (simp only: lt md if_True Let_def)
  have n: "n = aggreg_size_2 z - (a + 1)" using Suc.prems(3) by simp
  show ?case
  proof (cases "d2 < d")
    case True
    have ad: "adopt z v a (ci, cv) = (cluster_size z + a, d1)"
      using True cmp by (simp add: adopt_def d1_def)
    show ?thesis
      using Suc.IH [OF d2 Suc.prems(2) n, of "cluster_size z + a"] True
      by (simp add: step up ad)
  next
    case False
    have ad: "adopt z v a (ci, cv) = (ci, cv)"
      using False cmp by (simp add: adopt_def d1_def)
    show ?thesis
      using Suc.IH [OF Suc.prems(1) Suc.prems(2) n, of ci] False
      by (simp add: step up ad)
  qed
qed


lemma with_aggregations_spec:
  assumes "unat delta = dist v (cluster_center z ! k)"
    and "cluster_size z + aggreg_size_2 z \<le> 256"
  shows "with_aggregations z v option k delta =
     (let c = cluster_center z ! k
      in if dist v c < unat (drop_bit option c) then (True, k, c)
         else (case fold (adopt z v) [0..<aggreg_size_2 z] (k, c) of
                 (ci, cv) \<Rightarrow> (dist v cv < unat (drop_bit option cv), ci, cv)))"
proof -
  define c where "c = cluster_center z ! k"
  obtain d' where sc: "aggreg_scan z v 0 (k, c, delta) =
           (fst (fold (adopt z v) [0..<aggreg_size_2 z] (k, c)),
            snd (fold (adopt z v) [0..<aggreg_size_2 z] (k, c)), d')"
      and d': "unat d' = dist v (snd (fold (adopt z v) [0..<aggreg_size_2 z] (k, c)))"
    using aggreg_scan_fold [of delta v c z "aggreg_size_2 z - 0" 0 k] assms
    by (auto simp: c_def)
  have near: "delta < drop_bit option c \<longleftrightarrow> dist v c < unat (drop_bit option c)"
    using assms(1) by (simp add: word_less_nat_alt c_def)
  show ?thesis
    unfolding with_aggregations_def Let_def c_def [symmetric]
    using near sc d' by (simp add: word_less_nat_alt split: prod.splits)
qed

lemma centers_mono:
  assumes "clusters_ascending z" and "centers_inside z"
    and "j < k" and "k < cluster_size z"
  shows "cluster_center z ! j < cluster_center z ! k"
proof -
  have "cluster_center z ! j < cluster_ceil z ! j"
    using assms by (simp add: centers_inside_def)
  also have "cluster_ceil z ! j \<le> cluster_floor z ! k"
    using assms by (simp add: clusters_ascending_def)
  also have "cluster_floor z ! k \<le> cluster_center z ! k"
    using assms by (simp add: centers_inside_def)
  finally show ?thesis .
qed

lemma dist_below: "c < v \<Longrightarrow> dist v c = unat v - unat c" for c v :: u16
  by (auto simp: dist_def word_less_nat_alt)

lemma dist_above: "v < c \<Longrightarrow> dist v c = unat c - unat v" for c v :: u16
  by (auto simp: dist_def word_less_nat_alt)

lemma classifier_candidate:
  assumes n1: "1 \<le> cluster_size z" and n8: "cluster_size z \<le> NC"
    and asc: "clusters_ascending z" and ins: "centers_inside z"
    and out: "outside_clusters z v"
  shows "\<exists>delta. classifier z v option
           = with_aggregations z v option (nearest_cluster z v) delta
         \<and> unat delta = dist v (cluster_center z ! nearest_cluster z v)"
proof -
  define n where "n = cluster_size z"
  define i where "i = higher_ceil z v 0"
  let ?c = "\<lambda>j. cluster_center z ! j"
  have hp: "i \<le> n" "\<And>j. j < i \<Longrightarrow> \<not> v < cluster_ceil z ! j"
    "i < n \<Longrightarrow> v < cluster_ceil z ! i"
    using higher_ceil_props [of 0 z v] by (auto simp: i_def n_def)
  have mono: "?c j < ?c k" if "j < k" "k < n" for j k
    using centers_mono [OF asc ins] that by (simp add: n_def)
  have below: "?c j < v" if "j < i" for j
  proof -
    have "j < n" using that hp(1) by simp
    then have "?c j < cluster_ceil z ! j" using ins by (simp add: centers_inside_def n_def)
    moreover have "cluster_ceil z ! j \<le> v" using hp(2) [OF that] by simp
    ultimately show ?thesis by simp
  qed
  have above: "v < ?c j" if "i \<le> j" "j < n" for j
  proof -
    have iN: "i < n" using that by simp
    have "\<not> cluster_floor z ! i \<le> v"
      using out hp(3) [OF iN] iN by (auto simp: outside_clusters_def n_def)
    then have "v < cluster_floor z ! i" by simp
    also have "cluster_floor z ! i \<le> ?c i" using ins iN by (simp add: centers_inside_def n_def)
    also have "?c i \<le> ?c j" using mono [of i j] that by (cases "i = j") auto
    finally show ?thesis .
  qed
  have dmono_below: "dist v (?c k) < dist v (?c j)" if "j < k" "k < i" for j k
  proof -
    have "?c j < ?c k" using mono [of j k] that hp(1) by simp
    moreover have "?c k < v" "?c j < v" using below that by auto
    ultimately show ?thesis by (simp add: dist_below word_less_nat_alt)
  qed
  have dmono_above: "dist v (?c j) < dist v (?c k)" if "i \<le> j" "j < k" "k < n" for j k
  proof -
    have "?c j < ?c k" using mono [of j k] that by simp
    moreover have "v < ?c k" "v < ?c j" using above that by auto
    ultimately show ?thesis by (simp add: dist_above word_less_nat_alt)
  qed
  have le_below: "dist v (?c k) \<le> dist v (?c j)" if "j \<le> k" "k < i" for j k
    using dmono_below [of j k] that by (cases "j = k") auto
  have le_above: "dist v (?c j) \<le> dist v (?c k)" if "i \<le> j" "j \<le> k" "k < n" for j k
    using dmono_above [of j k] that by (cases "j = k") auto
  consider (top) "i = n" | (bottom) "i = 0" "0 < n" | (mid) "0 < i" "i < n"
    using hp(1) n1 unfolding n_def by linarith
  then show ?thesis
  proof cases
    case top
    have tp: "(cluster_size z + 255) mod 256 = n - 1"
      using n1 n8 by (simp add: n_def NC_def mod_if)
    have blw: "?c (n - 1) < v" using below [of "n - 1"] top n1 by (simp add: n_def)
    have nc: "nearest_cluster z v = n - 1"
    proof (rule nearest_cluster_eqI)
      show "n - 1 < cluster_size z" using n1 by (simp add: n_def)
      show "\<forall>j<cluster_size z. dist v (?c (n - 1)) \<le> dist v (?c j)"
        using le_below [of _ "n - 1"] top n1 by (auto simp: n_def)
      show "\<forall>j<n - 1. dist v (?c (n - 1)) < dist v (?c j)"
        using dmono_below [of _ "n - 1"] top n1 by (auto simp: n_def)
    qed
    have "classifier z v option = with_aggregations z v option (n - 1) (v - ?c (n - 1))"
      using top tp by (simp add: classifier_def i_def [symmetric] n_def [symmetric] Let_def)
    moreover have "unat (v - ?c (n - 1)) = dist v (?c (n - 1))"
      using blw by (simp add: dist_below unat_sub word_le_nat_alt word_less_nat_alt)
    ultimately show ?thesis using nc by auto
  next
    case bottom
    have abv: "v < ?c 0" using above [of 0] bottom by simp
    have nfl: "\<not> cluster_floor z ! 0 \<le> v"
      using out hp(3) bottom by (auto simp: outside_clusters_def n_def)
    have nc: "nearest_cluster z v = 0"
    proof (rule nearest_cluster_eqI)
      show "0 < cluster_size z" using bottom by (simp add: n_def)
      show "\<forall>j<cluster_size z. dist v (?c 0) \<le> dist v (?c j)"
        using le_above [of 0] bottom by (auto simp: n_def)
    qed simp
    have "classifier z v option = with_aggregations z v option 0 (?c 0 - v)"
      using bottom nfl
      by (simp add: classifier_def i_def [symmetric] n_def [symmetric] Let_def)
    moreover have "unat (?c 0 - v) = dist v (?c 0)"
      using abv by (simp add: dist_above unat_sub word_le_nat_alt word_less_nat_alt)
    ultimately show ?thesis using nc by auto
  next
    case mid
    have abv: "v < ?c i" using above [of i] mid by simp
    have blw: "?c (i - 1) < v" using below [of "i - 1"] mid by simp
    have nfl: "\<not> cluster_floor z ! i \<le> v"
      using out hp(3) mid by (auto simp: outside_clusters_def n_def)
    define d1 where "d1 = ?c i - v"
    define d2 where "d2 = v - ?c (i - 1)"
    have d1: "unat d1 = dist v (?c i)"
      using abv by (simp add: d1_def dist_above unat_sub word_le_nat_alt word_less_nat_alt)
    have d2: "unat d2 = dist v (?c (i - 1))"
      using blw by (simp add: d2_def dist_below unat_sub word_le_nat_alt word_less_nat_alt)
    have cl: "classifier z v option =
        (if d1 < d2 then with_aggregations z v option i d1
         else with_aggregations z v option (i - 1) d2)"
      using mid nfl
      by (simp add: classifier_def i_def [symmetric] n_def [symmetric] Let_def d1_def d2_def)
    show ?thesis
    proof (cases "d1 < d2")
      case True
      then have lt: "dist v (?c i) < dist v (?c (i - 1))"
        using d1 d2 by (simp add: word_less_nat_alt)
      have nc: "nearest_cluster z v = i"
      proof (rule nearest_cluster_eqI)
        show "i < cluster_size z" using mid by (simp add: n_def)
        show "\<forall>j<i. dist v (?c i) < dist v (?c j)"
        proof (intro allI impI)
          fix j assume "j < i"
          then have "dist v (?c (i - 1)) \<le> dist v (?c j)"
            using le_below [of j "i - 1"] mid by simp
          with lt show "dist v (?c i) < dist v (?c j)" by simp
        qed
        then have st: "\<And>j. j < i \<Longrightarrow> dist v (?c i) \<le> dist v (?c j)"
          by (simp add: less_imp_le)
        show "\<forall>j<cluster_size z. dist v (?c i) \<le> dist v (?c j)"
        proof (intro allI impI)
          fix j assume j: "j < cluster_size z"
          show "dist v (?c i) \<le> dist v (?c j)"
            using st [of j] le_above [of i j] j by (cases "j < i") (auto simp: n_def)
        qed
      qed
      show ?thesis using cl True d1 nc by auto
    next
      case False
      then have le: "dist v (?c (i - 1)) \<le> dist v (?c i)"
        using d1 d2 by (simp add: word_less_nat_alt)
      have nc: "nearest_cluster z v = i - 1"
      proof (rule nearest_cluster_eqI)
        show "i - 1 < cluster_size z" using mid by (simp add: n_def)
        show "\<forall>j<i - 1. dist v (?c (i - 1)) < dist v (?c j)"
          using dmono_below [of _ "i - 1"] mid by auto
        show "\<forall>j<cluster_size z. dist v (?c (i - 1)) \<le> dist v (?c j)"
        proof (intro allI impI)
          fix j assume j: "j < cluster_size z"
          show "dist v (?c (i - 1)) \<le> dist v (?c j)"
          proof (cases "j < i")
            case True
            then show ?thesis using le_below [of j "i - 1"] mid by simp
          next
            case False
            then have "dist v (?c i) \<le> dist v (?c j)"
              using le_above [of i j] j by (simp add: n_def)
            with le show ?thesis by simp
          qed
        qed
      qed
      show ?thesis using cl False d2 nc by auto
    qed
  qed
qed

text \<open>
  C4 (amended): for a category set with at least one cluster, whose clusters are in
  ascending order, do not overlap and hold their centers, and for a value outside every
  cluster range: when the nearest cluster is nearer than \<open>center >> option\<close>, the
  classifier returns true with that cluster and does not look at the aggregations;
  otherwise it returns the nearest category (clusters and aggregations), and it returns true
  exactly when the distance to that category is below \<open>cat_val >> option\<close>.  So
  whenever it returns false, \<open>cat_ind\<close> and \<open>cat_val\<close> hold the nearest category.
\<close>

theorem classifier_outside_clusters:
  assumes "1 \<le> cluster_size z" and "cluster_size z \<le> NC" and "aggreg_size_2 z \<le> NA"
    and "clusters_ascending z" and "centers_inside z"
    and "outside_clusters z v"
  shows "classifier z v option =
     (let k = nearest_cluster z v; c = cluster_center z ! k
      in if dist v c < unat (drop_bit option c) then (True, k, c)
         else (case nearest_category z v of
                 (ci, cv) \<Rightarrow> (dist v cv < unat (drop_bit option cv), ci, cv)))"
proof -
  obtain delta where cl: "classifier z v option
           = with_aggregations z v option (nearest_cluster z v) delta"
    and d: "unat delta = dist v (cluster_center z ! nearest_cluster z v)"
    using classifier_candidate [OF assms(1,2,4,5,6)] by blast
  have "cluster_size z + aggreg_size_2 z \<le> 256"
    using assms(2,3) by (simp add: NC_def NA_def)
  from with_aggregations_spec [OF d this] show ?thesis
    by (simp add: cl nearest_category_def Let_def)
qed


text \<open>
  C4 as stated fails: at the value 800 the only cluster (center 1000) is near enough under
  \<open>C_OPT_2\<close>, so the classifier returns it, although the aggregation at 640 is nearer
  and is itself not near enough (160 is not below 640 >> 2).
\<close>

theorem classifier_nearest_counterexample:
  "1 \<le> cluster_size z_one \<and> cluster_size z_one \<le> NC \<and> aggreg_size_2 z_one \<le> NA
   \<and> clusters_ascending z_one \<and> centers_inside z_one \<and> outside_clusters z_one 800
   \<and> nearest_category z_one 800 = (1, 640)
   \<and> classifier z_one 800 C_OPT_2 = (True, 0, 1000)
   \<and> \<not> dist 800 640 < unat (drop_bit C_OPT_2 (640 :: u16))
   \<and> classifier z_one 800 C_OPT_2 \<noteq>
       (case nearest_category z_one 800 of
          (ci, cv) \<Rightarrow> (dist 800 cv < unat (drop_bit C_OPT_2 cv), ci, cv))"
  by code_simp

lemma z_two_outside: "centers_inside z_two \<and> outside_clusters z_two 800"
  by code_simp

theorem classifier_outside_clusters_witness:
  "classifier z_two 800 C_OPT_3 = (False, 2, 640)"
proof -
  have "nearest_cluster z_two 800 = 0" "nearest_category z_two 800 = (2, 640)"
    by code_simp+
  moreover have "\<not> dist 800 400 < unat (drop_bit C_OPT_3 (400 :: u16))"
      "\<not> dist 800 640 < unat (drop_bit C_OPT_3 (640 :: u16))"
    by code_simp+
  moreover have "cluster_center z_two ! 0 = 400" by (simp add: z_two_def)
  ultimately show ?thesis
    using classifier_outside_clusters [of z_two 800 C_OPT_3] z_two_ascending z_two_outside
    by (simp add: z_two_def NC_def NA_def)
qed

section \<open>Properties of the resorber\<close>


lemma resorbed_window:
  assumes "s + 4 < length v"
  shows "take 5 (drop s (resorbed v c s x)) = [c ! 0, x, 0, 0, c ! 4]"
proof -
  have len: "length (take 5 (drop s (resorbed v c s x))) = 5"
    using assms by (simp add: resorbed_def)
  show ?thesis
  proof (rule nth_equalityI)
    show "length (take 5 (drop s (resorbed v c s x))) = length [c ! 0, x, 0, 0, c ! 4]"
      using len by simp
    fix i assume "i < length (take 5 (drop s (resorbed v c s x)))"
    then have "i < 5" using len by simp
    then consider "i = 0" | "i = 1" | "i = 2" | "i = 3" | "i = 4" by linarith
    then show "take 5 (drop s (resorbed v c s x)) ! i = [c ! 0, x, 0, 0, c ! 4] ! i"
      using assms by cases (simp_all add: resorbed_def)
  qed
qed

text \<open>
  C2: whenever the resorber returns true on a window that starts at \<open>ss_start_ind\<close> and
  lies inside the buffer, the five cells of the window hold
  \<open>(ss_cat[0], c, 0, 0, ss_cat[4])\<close> afterwards, where \<open>c\<close> is the center of the
  category assigned to the virtual triple, and the returned \<open>rel_delta\<close> is at most the
  best-fit \<open>rel_delta\<close> that came in.
\<close>

theorem resorber_window:
  assumes "resorber z v ss_cat s e rd = Inr (True, z', v', rd', rc)"
    and "s + 4 < length v"
  shows "take 5 (drop s v') =
           [ss_cat ! 0, snd (snd (triple_category z v ss_cat s rd)), 0, 0, ss_cat ! 4]
         \<and> rd' \<le> rd"
proof -
  obtain near ci cv where tc: "triple_category z v ss_cat s rd = (near, ci, cv)"
    by (cases "triple_category z v ss_cat s rd") auto
  then have cl: "classifier z (word_of_int (virtual_triple v ss_cat s)) (resorber_option rd)
      = (near, ci, cv)"
    by (simp add: triple_category_def)
  have len: "(e + 65536 - s) mod 65536 = 4"
    using assms(1) by (auto simp: resorber_def split: if_splits)
  have tr: "\<not> virtual_triple v ss_cat s > int CEIL"
    using assms(1) len by (auto simp: resorber_def Let_def split: if_splits)
  have near: near
    using assms(1) len tr cl by (auto simp: resorber_def Let_def split: if_splits)
  obtain r where r: "rel_delta_of (window_sum v s e) (uint (ss_cat ! 0 + cv + ss_cat ! 4)) = Inr r"
    using assms(1) len tr cl near
    by (cases "rel_delta_of (window_sum v s e) (uint (ss_cat ! 0 + cv + ss_cat ! 4))")
      (auto simp: resorber_def Let_def)
  have le: "\<not> r > rd"
    using assms(1) len tr cl near r by (auto simp: resorber_def Let_def split: if_splits)
  have "resorb_commit z v ss_cat s ci cv r = (True, z', v', rd', rc)"
    using assms(1) len tr cl near r le by (simp add: resorber_def Let_def)
  then have "v' = resorbed v ss_cat s cv \<and> rd' \<le> rd"
    using le by (auto simp: resorb_commit_def Let_def not_less split: if_splits)
  with resorbed_window [OF assms(2)] tc show ?thesis by simp
qed

theorem resorber_window_witness:
  "resorber z_two v_spike cat_spike 10 14 60
     = Inr (True, z_two, [0, 400, 1200, 400, 1200, 400, 1200, 400, 1200, 400,
                          400, 1200, 0, 0, 1200, 400], 3, CRC_0)
   \<and> take 5 (drop 10 [0, 400, 1200, 400, 1200, 400, 1200, 400, 1200, 400,
                          400, 1200, 0, 0, 1200, 400 :: u16])
       = [cat_spike ! 0, snd (snd (triple_category z_two v_spike cat_spike 10 60)), 0, 0, cat_spike ! 4]
   \<and> (3 :: u16) \<le> 60"
proof -
  have r: "resorber z_two v_spike cat_spike 10 14 60
     = Inr (True, z_two, [0, 400, 1200, 400, 1200, 400, 1200, 400, 1200, 400,
                          400, 1200, 0, 0, 1200, 400], 3, CRC_0)"
    by code_simp
  have l: "10 + 4 < length v_spike" by (simp add: v_spike_def)
  from resorber_window [OF r l] r show ?thesis by simp
qed

text \<open>
  The guard of the code.  For a window of five values whose virtual triple is at most
  \<open>CEIL\<close> and classifiable under the chosen option, with a non-zero sum of values, and
  with room in the outlier table when the assigned category is an aggregation: the
  resorber refuses when its relative delta is greater than the incoming best-fit delta,
  leaving \<open>v\<close> and \<open>z\<close> as they were and returning the best-fit delta; in every other
  case, the tie included, it rewrites the window and returns true.
\<close>

lemma resorber_guard:
  assumes "e = s + 4"
    and "virtual_triple v ss_cat s \<le> int CEIL"
    and "fst (triple_category z v ss_cat s rd)"
    and "resorber_rel_delta z v ss_cat s rd = Inr rd'"
    and "fst (snd (triple_category z v ss_cat s rd)) < cluster_size z \<or> outlier_size z < NO"
  shows "(rd' \<le> rd \<longrightarrow>
            (\<exists>z'. resorber z v ss_cat s e rd =
                Inr (True, z', resorbed v ss_cat s (snd (snd (triple_category z v ss_cat s rd))),
                     rd', CRC_0)))
       \<and> (rd < rd' \<longrightarrow> resorber z v ss_cat s e rd = Inr (False, z, v, rd, CRC_0))"
proof -
  obtain near ci cv where tc: "triple_category z v ss_cat s rd = (near, ci, cv)"
    by (cases "triple_category z v ss_cat s rd") auto
  then have cl: "classifier z (word_of_int (virtual_triple v ss_cat s)) (resorber_option rd)
      = (near, ci, cv)"
    by (simp add: triple_category_def)
  have near: near using assms(3) tc by simp
  have len: "(e + 65536 - s) mod 65536 = 4" using assms(1) by simp
  have r: "rel_delta_of (window_sum v s e) (uint (ss_cat ! 0 + cv + ss_cat ! 4)) = Inr rd'"
    using assms(1,4) tc by (simp add: resorber_rel_delta_def)
  have room: "ci < cluster_size z \<or> outlier_size z < NO" using assms(5) tc by simp
  have res: "resorber z v ss_cat s e rd =
      (if rd' > rd then Inr (False, z, v, rd, CRC_0)
       else Inr (resorb_commit z v ss_cat s ci cv rd'))"
    using len assms(2) cl near r by (simp add: resorber_def Let_def)
  have "\<exists>z'. resorb_commit z v ss_cat s ci cv rd' = (True, z', resorbed v ss_cat s cv, rd', CRC_0)"
    using room by (auto simp: resorb_commit_def Let_def)
  with res tc show ?thesis by (auto simp: not_less)
qed

lemma resorber_guard_spike:
  "resorber z_two v_spike cat_spike 10 14 60 =
     Inr (True, z_two, resorbed v_spike cat_spike 10 1200, 3, CRC_0)"
proof -
  have h: "virtual_triple v_spike cat_spike 10 \<le> int CEIL"
      "fst (triple_category z_two v_spike cat_spike 10 60)"
      "resorber_rel_delta z_two v_spike cat_spike 10 60 = Inr 3"
      "fst (snd (triple_category z_two v_spike cat_spike 10 60)) < cluster_size z_two
         \<or> outlier_size z_two < NO"
      "snd (snd (triple_category z_two v_spike cat_spike 10 60)) = 1200"
    by code_simp+
  have "\<exists>z'. resorber z_two v_spike cat_spike 10 14 60 =
      Inr (True, z', resorbed v_spike cat_spike 10 1200, 3, CRC_0)"
    using resorber_guard [of 14 10 v_spike cat_spike z_two 60 3] h by simp
  moreover have "fst (snd (projr (resorber z_two v_spike cat_spike 10 14 60))) = z_two"
    by code_simp
  ultimately show ?thesis by auto
qed

text \<open>
  C5 at a failing input.  The header of the resorber says that its relative delta must be
  smaller than that of the best-fit approximation, and the comment above the writes says
  that the resorber gives the smaller delta.  The test is
  \<open>rel_delta > rel_delta_bestfit\<close>: at a delta of 3 against a best-fit delta of 3, which
  is not smaller, the resorber rewrites the window and returns true.
\<close>

theorem resorber_equal_delta_counterexample:
  "virtual_triple v_spike cat_spike 10 \<le> int CEIL
   \<and> fst (triple_category z_two v_spike cat_spike 10 3)
   \<and> resorber_rel_delta z_two v_spike cat_spike 10 3 = Inr 3
   \<and> \<not> (3 :: u16) < 3
   \<and> resorber z_two v_spike cat_spike 10 14 3 =
        Inr (True, z_two, [0, 400, 1200, 400, 1200, 400, 1200, 400, 1200, 400,
                           400, 1200, 0, 0, 1200, 400], 3, CRC_0)"
  by code_simp

text \<open>
  C6 at a failing input: the triple is near an aggregation and the delta is accepted, so the
  window is rewritten; only then is the full outlier table noticed.  The resorber
  returns false with code 5 and a changed \<open>v\<close>.
\<close>

theorem resorber_overflow_rewrites_window:
  "resorber z_full v_drop cat_drop 10 14 60 =
     Inr (False, z_full, [0, 1000, 1000, 1000, 1000, 1000, 1000, 1000, 1000, 1000,
                          1000, 640, 0, 0, 1000, 1000], 1, CRC_5)
   \<and> [0, 1000, 1000, 1000, 1000, 1000, 1000, 1000, 1000, 1000,
        1000, 640, 0, 0, 1000, 1000] \<noteq> v_drop"
  by code_simp


text \<open>Every other refusal leaves the duration array and the categories as they were.\<close>

lemma resorber_refusal_keeps_window:
  assumes "resorber z v ss_cat s e rd = Inr (False, z', v', rd', rc)" and "rc \<noteq> CRC_5"
  shows "v' = v \<and> z' = z"
proof (cases "(e + 65536 - s) mod 65536 = 4 \<and> \<not> virtual_triple v ss_cat s > int CEIL")
  case False
  with assms(1) show ?thesis by (auto simp: resorber_def Let_def split: if_splits)
next
  case True
  obtain near ci cv where cl:
    "classifier z (word_of_int (virtual_triple v ss_cat s)) (resorber_option rd) = (near, ci, cv)"
    by (cases "classifier z (word_of_int (virtual_triple v ss_cat s)) (resorber_option rd)") auto
  show ?thesis
  proof (cases near)
    case False
    with assms(1) True cl show ?thesis by (simp add: resorber_def Let_def)
  next
    case near: True
    show ?thesis
    proof (cases "rel_delta_of (window_sum v s e) (uint (ss_cat ! 0 + cv + ss_cat ! 4))")
      case (Inl f)
      with assms(1) True cl near show ?thesis by (simp add: resorber_def Let_def)
    next
      case (Inr r)
      show ?thesis
      proof (cases "r > rd")
        case True
        with assms(1) \<open>(e + 65536 - s) mod 65536 = 4 \<and> \<not> virtual_triple v ss_cat s > int CEIL\<close>
          cl near Inr show ?thesis by (simp add: resorber_def Let_def)
      next
        case False
        with assms(1) True cl near Inr
        have "resorb_commit z v ss_cat s ci cv r = (False, z', v', rd', rc)"
          by (simp add: resorber_def Let_def)
        with assms(2) show ?thesis
          by (auto simp: resorb_commit_def Let_def split: if_splits)
      qed
    qed
  qed
qed

section \<open>Properties of the corrector\<close>

lemma aggreg_groups_rc:
  "snd (aggreg_groups v m l z i) = CRC_0 \<or> snd (aggreg_groups v m l z i) = CRC_4
     \<or> snd (aggreg_groups v m l z i) = CRC_17"
proof (induction "l - i" arbitrary: z i rule: less_induct)
  case less
  show ?case
  proof (cases "aggreg_size_2 z \<ge> NC")
    case True
    then show ?thesis by (subst aggreg_groups.simps) simp
  next
    case False
    obtain v_sum v_count o_ind' ended where
      gs: "group_scan v (outlier_ind z) l i 0 0 = (v_sum, v_count, o_ind', ended)"
      by (cases "group_scan v (outlier_ind z) l i 0 0") auto
    define z' where "z' = put_aggreg z (word_of_int (v_sum div int v_count)) v_count m"
    show ?thesis
    proof (cases "\<not> ended \<and> o_ind' < l")
      case True
      have adv: "i < o_ind'" using gs True group_scan_advances by auto
      have "aggreg_groups v m l z i = aggreg_groups v m l z' o_ind'"
        using False gs True by (subst aggreg_groups.simps) (simp add: z'_def Let_def)
      moreover have "snd (aggreg_groups v m l z' o_ind') = CRC_0
         \<or> snd (aggreg_groups v m l z' o_ind') = CRC_4
         \<or> snd (aggreg_groups v m l z' o_ind') = CRC_17"
        using adv True by (intro less) auto
      ultimately show ?thesis by simp
    next
      case nrec: False
      have "aggreg_groups v m l z i =
          (if ended then (z', CRC_0)
           else if o_ind' = l
           then (if aggreg_size_2 z' \<ge> NC then (z', CRC_4)
                 else (put_aggreg z' (v ! (outlier_ind z' ! o_ind')) 1 m, CRC_0))
           else (z', CRC_17))"
        using False gs nrec by (subst aggreg_groups.simps) (auto simp: z'_def Let_def)
      then show ?thesis by simp
    qed
  qed
qed

lemma aggregator_rc:
  "snd (aggregator z v m) = CRC_0 \<or> snd (aggregator z v m) = CRC_4 \<or> snd (aggregator z v m) = CRC_17"
  unfolding aggregator_def Let_def using aggreg_groups_rc by auto


lemma promote_rc:
  assumes "promote zz v e rc i = (ret, zz', rc')"
  shows "rc' = rc \<or> rc' = CRC_0 \<or> rc' = CRC_4 \<or> rc' = CRC_5 \<or> rc' = CRC_17"
  using assms
proof (induction "Suc e - i" arbitrary: zz rc i rule: less_induct)
  case less
  show ?case
  proof (cases "i \<le> e")
    case False
    with less.prems show ?thesis by (subst (asm) promote.simps) simp
  next
    case True
    show ?thesis
    proof (cases "v ! i > separator_barrier (z_at zz i)")
      case False
      with True less.prems have "promote zz v e rc (i + 1) = (ret, zz', rc')"
        by (subst (asm) promote.simps) simp
      with True show ?thesis by (intro less(1) [of "i + 1" zz rc]) auto
    next
      case top: True
      show ?thesis
      proof (cases "outlier_size (z_at zz i) \<ge> NO")
        case True
        with \<open>i \<le> e\<close> top less.prems show ?thesis by (subst (asm) promote.simps) simp
      next
        case False
        obtain z1 rc1 where ag: "aggregator (add_outlier (z_at zz i) i) v 0 = (z1, rc1)"
          by (cases "aggregator (add_outlier (z_at zz i) i) v 0") auto
        have "promote (z_put zz i z1) v e rc1 (i + 1) = (ret, zz', rc')"
          using \<open>i \<le> e\<close> top False ag less.prems by (subst (asm) promote.simps) simp
        then have "rc' = rc1 \<or> rc' = CRC_0 \<or> rc' = CRC_4 \<or> rc' = CRC_5 \<or> rc' = CRC_17"
          using \<open>i \<le> e\<close> by (intro less(1) [of "i + 1" "z_put zz i z1" rc1]) auto
        moreover have "rc1 = CRC_0 \<or> rc1 = CRC_4 \<or> rc1 = CRC_17"
          using aggregator_rc [of "add_outlier (z_at zz i) i" v 0] ag by simp
        ultimately show ?thesis by auto
      qed
    qed
  qed
qed

lemma resorber_rc:
  assumes "resorber z v c s e rd = Inr (b, z', v', rd', rc')"
  shows "rc' = CRC_0 \<or> rc' = CRC_5 \<or> rc' = CRC_18"
  using assms
  by (auto simp: resorber_def resorb_commit_def Let_def
        split: if_splits prod.splits sum.splits)

lemma resorber_short_window:
  assumes "ss_len s e = 4"
  shows "resorber z v c s e rd = Inr (False, z, v, rd, CRC_0)"
proof -
  have "(e + 65536 - s) mod 65536 \<noteq> 4"
  proof
    assume "(e + 65536 - s) mod 65536 = 4"
    then have "((e + 65536 - s) mod 65536 + 1) mod 65536 = 5" by simp
    then have "ss_len s e = 5" by (simp add: ss_len_def mod_simps)
    with assms show False by simp
  qed
  then show ?thesis by (simp add: resorber_def)
qed


lemma correct_window_rc:
  assumes "correct_window zz v s e rc = Inr (returned, zz', v', rc')" and "rc \<noteq> CRC_2"
  shows "(rc' = CRC_2 \<longleftrightarrow> \<not> passes_length_test (s, e)) \<and> (\<not> passes_length_test (s, e) \<longrightarrow> returned)"
proof (cases "ss_len s e < 4 \<or> ss_len s e > 5")
  case True
  then have "\<not> passes_length_test (s, e)" by (auto simp: passes_length_test_def)
  with True assms(1) show ?thesis by (simp add: correct_window_def)
next
  case False
  then have legal: "passes_length_test (s, e)" by (auto simp: passes_length_test_def)
  obtain ret1 zz1 rc1 where pr: "promote zz v e rc s = (ret1, zz1, rc1)"
    by (cases "promote zz v e rc s") auto
  have rc1: "rc1 \<noteq> CRC_2"
    using promote_rc [OF pr] assms(2) by (auto simp: CRC_2_def CRC_0_def CRC_4_def CRC_5_def CRC_17_def)
  have "rc' \<noteq> CRC_2"
  proof (cases ret1)
    case True
    with assms(1) False pr rc1 show ?thesis by (simp add: correct_window_def)
  next
    case nret: False
    define cs where "cs = ss_classify zz1 v s e"
    define ss_cat where "ss_cat = map (\<lambda>c. snd (snd c)) cs"
    obtain rd where rd: "rel_delta_of (window_sum v s e) (sum_list (map uint ss_cat)) = Inr rd"
      using assms(1) False pr nret
      by (cases "rel_delta_of (window_sum v s e) (sum_list (map uint ss_cat))")
        (auto simp: correct_window_def Let_def cs_def ss_cat_def)
    show ?thesis
    proof (cases "list_all fst cs")
      case True
      with assms(1) False pr nret rd rc1 show ?thesis
        by (simp add: correct_window_def Let_def cs_def ss_cat_def)
    next
      case nflag: False
      obtain b z1 v1 rd1 rcr where rs:
        "resorber (z_at zz1 (s + 1)) v ss_cat s e rd = Inr (b, z1, v1, rd1, rcr)"
        using assms(1) False pr nret rd nflag
        by (cases "resorber (z_at zz1 (s + 1)) v ss_cat s e rd")
          (auto simp: correct_window_def Let_def cs_def ss_cat_def)
      have "rc' = rcr"
        using assms(1) False pr nret rd nflag rs
        by (auto simp: correct_window_def Let_def cs_def ss_cat_def split: if_splits)
      with resorber_rc [OF rs] show ?thesis
        by (auto simp: CRC_2_def CRC_0_def CRC_5_def CRC_18_def)
    qed
  qed
  with legal show ?thesis by simp
qed

lemma untrusted_loop_rc:
  assumes "untrusted_loop n zz v rc i ws0 = Inr (zz', v', rc', ws)"
    and "rc \<noteq> CRC_2" and "\<forall>w \<in> set ws0. passes_length_test w"
  shows "rc' = CRC_2 \<longleftrightarrow> (\<exists>w \<in> set ws. \<not> passes_length_test w)"
  using assms
proof (induction "Suc n - i" arbitrary: zz v rc i ws0 rule: less_induct)
  case less
  show ?case
  proof (cases "extractor v n i")
    case None
    with less.prems show ?thesis by (subst (asm) untrusted_loop.simps) auto
  next
    case (Some t)
    obtain i' s e where t: "t = (i', s, e)" by (cases t) auto
    have adv: "i < i'" "i' \<le> Suc n" using extractor_advances Some t by auto
    obtain ret zz1 v1 rc1 where cw: "correct_window zz v s e rc = Inr (ret, zz1, v1, rc1)"
      using less.prems(1) Some t
      by (subst (asm) untrusted_loop.simps) (cases "correct_window zz v s e rc", auto)
    note cr = correct_window_rc [OF cw less.prems(2)]
    show ?thesis
    proof (cases ret)
      case True
      then have "zz' = zz1 \<and> v' = v1 \<and> rc' = rc1 \<and> ws = ws0 @ [(s, e)]"
        using less.prems(1) Some t cw by (subst (asm) untrusted_loop.simps) simp
      with cr less.prems(3) show ?thesis by auto
    next
      case False
      then have rec: "untrusted_loop n zz1 v1 rc1 i' (ws0 @ [(s, e)]) = Inr (zz', v', rc', ws)"
        using less.prems(1) Some t cw by (subst (asm) untrusted_loop.simps) simp
      have lg: "passes_length_test (s, e)" "rc1 \<noteq> CRC_2" using cr False by auto
      show ?thesis
        using adv lg less.prems(3)
        by (intro less(1) [OF _ rec]) auto
    qed
  qed
qed

lemma outlier_correction_rc:
  assumes "outlier_correction zz v n = Inr (ret, zz', v', rc')"
  shows "rc' \<noteq> CRC_2"
proof -
  have a: "snd (aggregator z w 0) \<noteq> CRC_2" for z w
    using aggregator_rc [of z w 0] by (auto simp: CRC_2_def CRC_0_def CRC_4_def CRC_17_def)
  have a': "aggregator z w 0 = (z1, r) \<Longrightarrow> r \<noteq> CRC_2" for z w z1 r
    using a [of z w] by simp
  from assms show ?thesis
    by (auto simp: outlier_correction_def CRC_2_def CRC_16_def CRC_0_def
          split: if_splits prod.splits sum.splits dest!: a' simp del: split_paired_All)
qed


text \<open>
  For the windows of the corrector the \<open>uint16_t\<close> length of the code is the number of
  values of the window: the scan starts at index 9 and the trace has fewer than
  \<open>2^16\<close> values.
\<close>

lemma extractor_window:
  assumes "extractor v n i = Some (i', s, e)" and "2 \<le> i" and "n < 65536"
  shows "ss_len s e = window_size (s, e) \<and> 2 \<le> i'"
proof -
  obtain u where u: "find_unreliable v ((n + 65534) mod 65536) i = Some u"
    and r: "find_reliable v n u = Some e" and s: "s = (u + 65535) mod 65536"
    using assms(1) by (auto simp: extractor_def split: option.splits)
  have "i \<le> u" using u by (rule find_unreliable_ge)
  then have u2: "2 \<le> u" using assms(2) by simp
  then have u1: "1 \<le> u" by simp
  have ue: "u \<le> e" "e \<le> n" using find_reliable_range [OF r] by auto
  then have "u < 65536" using assms(3) by simp
  then have "(u + 65535) mod 65536 = u - 1" using u1 by (simp add: mod_if)
  then have s': "s = u - 1" using s by simp
  define d where "d = e + 2 - u"
  have d1: "d < 65536" using u2 ue assms(3) unfolding d_def by linarith
  have d2: "e + 65536 - (u - 1) + 1 = d + 65536" using u1 ue unfolding d_def by linarith
  have d3: "Suc e - (u - 1) = d" using u1 ue unfolding d_def by linarith
  note d = d1 d2 d3
  have "ss_len s e = (e + 65536 - (u - 1) + 1) mod 65536" unfolding ss_len_def s' ..
  also have "\<dots> = (d + 65536) mod 65536" by (simp only: d(2))
  also have "\<dots> = d" using d(1) by simp
  also have "d = window_size (s, e)"
    using d(3) by (simp add: window_size_def s' del: upt_Suc)
  finally show ?thesis using assms(2) extractor_advances [OF assms(1)] by simp
qed


lemma untrusted_loop_sizes:
  assumes "untrusted_loop n zz v rc i ws0 = Inr (zz', v', rc', ws)"
    and "2 \<le> i" and "n < 65536"
    and "\<forall>w \<in> set ws0. ss_len (fst w) (snd w) = window_size w"
  shows "\<forall>w \<in> set ws. ss_len (fst w) (snd w) = window_size w"
  using assms
proof (induction "Suc n - i" arbitrary: zz v rc i ws0 rule: less_induct)
  case less
  show ?case
  proof (cases "extractor v n i")
    case None
    with less.prems show ?thesis by (subst (asm) untrusted_loop.simps) auto
  next
    case (Some t)
    obtain i' s e where t: "t = (i', s, e)" by (cases t) auto
    have adv: "i < i'" "i' \<le> Suc n" using extractor_advances Some t by auto
    have sz: "ss_len s e = window_size (s, e)"
      using extractor_window [of v n i i' s e] Some t less.prems(2,3) by simp
    have ws1: "\<forall>w \<in> set (ws0 @ [(s, e)]). ss_len (fst w) (snd w) = window_size w"
      using less.prems(4) sz by simp
    obtain ret zz1 v1 rc1 where cw: "correct_window zz v s e rc = Inr (ret, zz1, v1, rc1)"
      using less.prems(1) Some t
      by (subst (asm) untrusted_loop.simps) (cases "correct_window zz v s e rc", auto)
    show ?thesis
    proof (cases ret)
      case True
      then have "ws = ws0 @ [(s, e)]"
        using less.prems(1) Some t cw by (subst (asm) untrusted_loop.simps) simp
      with ws1 show ?thesis by simp
    next
      case False
      then have rec: "untrusted_loop n zz1 v1 rc1 i' (ws0 @ [(s, e)]) = Inr (zz', v', rc', ws)"
        using less.prems(1) Some t cw by (subst (asm) untrusted_loop.simps) simp
      show ?thesis
        using adv less.prems(2,3) ws1
        by (intro less(1) [OF _ rec]) auto
    qed
  qed
qed

lemma window_of_four: "window_size (s, e) = 4 \<Longrightarrow> ss_len s e = 4"
proof -
  assume "window_size (s, e) = 4"
  then have "e = s + 3" by (simp add: window_size_def del: upt_Suc)
  then show ?thesis by (simp add: ss_len_def)
qed

text \<open>
  C9.  \<open>ws\<close> holds the windows that the extractor yielded, and \<open>window_size\<close> is the
  number of values of a window, counted from its two indices.  The corrector returns code
  2 exactly when one of these windows holds neither 4 nor 5 values.  On a window of 4
  values the resorber returns false with code 0 and leaves \<open>v\<close>, \<open>z\<close> and
  \<open>rel_delta\<close> as they were; so whenever the corrector goes on after a window of 4
  values, the window holds the best-fit overwrite: each value replaced by the center of its
  nearest category.
\<close>

theorem corrector_window_lengths:
  "(n < 65536 \<longrightarrow> corrector zz v n u = Inr (zz', v', rc', ws) \<longrightarrow>
      (rc' = CRC_2 \<longleftrightarrow> (\<exists>w \<in> set ws. window_size w \<noteq> 4 \<and> window_size w \<noteq> 5)))
   \<and> (window_size (s, e) = 4 \<longrightarrow> resorber z v ss_cat s e rd = Inr (False, z, v, rd, CRC_0))
   \<and> (window_size (s, e) = 4 \<longrightarrow> correct_window zz v s e rc = Inr (False, zz1, v1, rc1) \<longrightarrow>
        v1 = overwrite v s
               (map (\<lambda>c. snd (snd c)) (ss_classify (fst (snd (promote zz v e rc s))) v s e)))"
proof (intro conjI impI)
  assume n: "n < 65536" and c: "corrector zz v n u = Inr (zz', v', rc', ws)"
  show "rc' = CRC_2 \<longleftrightarrow> (\<exists>w \<in> set ws. window_size w \<noteq> 4 \<and> window_size w \<noteq> 5)"
  proof (cases "cluster_size (snd zz) = 0")
    case True
    with c show ?thesis by (auto simp: corrector_def CRC_7_def CRC_2_def)
  next
    case False
    obtain ret zz1 v1 rc1 where oc: "outlier_correction zz v n = Inr (ret, zz1, v1, rc1)"
      using c False by (cases "outlier_correction zz v n") (auto simp: corrector_def)
    note r1 = outlier_correction_rc [OF oc]
    show ?thesis
    proof (cases "ret \<or> rc1 > CRC_0 \<or> \<not> u > 0")
      case True
      with c False oc r1 show ?thesis by (auto simp: corrector_def split: if_splits)
    next
      case run: False
      then have ul: "untrusted_loop n zz1 v1 rc1 (1 + BORDER_WIDTH) [] = Inr (zz', v', rc', ws)"
        using c False oc by (simp add: corrector_def)
      have sz: "\<forall>w \<in> set ws. ss_len (fst w) (snd w) = window_size w"
        using untrusted_loop_sizes [OF ul _ n] by (simp add: BORDER_WIDTH_def)
      have "rc' = CRC_2 \<longleftrightarrow> (\<exists>w \<in> set ws. \<not> passes_length_test w)"
        using untrusted_loop_rc [OF ul r1] by simp
      with sz show ?thesis by (auto simp: passes_length_test_def)
    qed
  qed
next
  assume "window_size (s, e) = 4"
  then have "ss_len s e = 4" by (rule window_of_four)
  then show "resorber z v ss_cat s e rd = Inr (False, z, v, rd, CRC_0)"
    by (rule resorber_short_window)
next
  assume w4: "window_size (s, e) = 4" and cw: "correct_window zz v s e rc = Inr (False, zz1, v1, rc1)"
  have len: "ss_len s e = 4" using w4 by (rule window_of_four)
  obtain ret zp rcp where pr: "promote zz v e rc s = (ret, zp, rcp)"
    by (cases "promote zz v e rc s") auto
  define cs where "cs = ss_classify zp v s e"
  define cat where "cat = map (\<lambda>c. snd (snd c)) cs"
  have nret: "\<not> ret" using cw len pr by (auto simp: correct_window_def split: if_splits)
  obtain r where r: "rel_delta_of (window_sum v s e) (sum_list (map uint cat)) = Inr r"
    using cw len pr nret
    by (cases "rel_delta_of (window_sum v s e) (sum_list (map uint cat))")
      (auto simp: correct_window_def Let_def cs_def cat_def)
  have "v1 = overwrite v s cat"
    using cw len pr nret r resorber_short_window [OF len, of "z_at zp (s + 1)" v cat r]
    by (auto simp: correct_window_def Let_def cs_def cat_def CRC_0_def split: if_splits)
  then show "v1 = overwrite v s
      (map (\<lambda>c. snd (snd c)) (ss_classify (fst (snd (promote zz v e rc s))) v s e))"
    by (simp add: pr cat_def cs_def)
qed

lemma corrector_quad:
  "corrector (z_lo, z_hi) v_quad 36 2 = Inr ((z_lo, z_hi), v_quad_fitted, CRC_0, [(20, 23)])"
  by code_simp

lemma window_quad:
  "correct_window (z_lo, z_hi) v_quad 20 23 CRC_0 = Inr (False, (z_lo, z_hi), v_quad_fitted, CRC_0)"
  "list_all fst (ss_classify (z_lo, z_hi) v_quad 20 23) = False"
  by code_simp+

lemma corrector_short:
  "corrector (z_lo, z_hi) v_single 36 1 = Inr ((z_lo, z_hi), v_single, CRC_2, [(20, 22)])"
  by code_simp

lemma corrector_long:
  "corrector (z_lo, z_hi) v_six 36 4 = Inr ((z_lo, z_hi), v_six, CRC_2, [(20, 25)])"
  by code_simp

lemma window_sizes:
  "window_size (20, 23) = 4" "window_size (20, 22) = 3" "window_size (20, 25) = 6"
  by (simp_all add: window_size_def del: upt_Suc)

theorem corrector_window_lengths_witness:
  "corrector (z_lo, z_hi) v_quad 36 2 = Inr ((z_lo, z_hi), v_quad_fitted, CRC_0, [(20, 23)])
   \<and> window_size (20, 23) = 4
   \<and> corrector (z_lo, z_hi) v_single 36 1 = Inr ((z_lo, z_hi), v_single, CRC_2, [(20, 22)])
   \<and> window_size (20, 22) = 3
   \<and> corrector (z_lo, z_hi) v_six 36 4 = Inr ((z_lo, z_hi), v_six, CRC_2, [(20, 25)])
   \<and> window_size (20, 25) = 6
   \<and> resorber z_hi v_quad [1200, 400, 1200, 400] 20 23 59 = Inr (False, z_hi, v_quad, 59, CRC_0)
   \<and> v_quad_fitted = overwrite v_quad 20
        (map (\<lambda>c. snd (snd c))
           (ss_classify (fst (snd (promote (z_lo, z_hi) v_quad 23 CRC_0 20))) v_quad 20 23))"
  using corrector_window_lengths [of 36 "(z_lo, z_hi)" v_quad 2 "(z_lo, z_hi)" v_quad_fitted
      CRC_0 "[(20, 23)]" 20 23 z_hi "[1200, 400, 1200, 400]" 59 CRC_0 "(z_lo, z_hi)"
      v_quad_fitted CRC_0]
    corrector_window_lengths [of 36 "(z_lo, z_hi)" v_single 1 "(z_lo, z_hi)" v_single
      CRC_2 "[(20, 22)]"]
    corrector_window_lengths [of 36 "(z_lo, z_hi)" v_six 4 "(z_lo, z_hi)" v_six
      CRC_2 "[(20, 25)]"]
    corrector_quad window_quad corrector_short corrector_long window_sizes
  by (simp add: CRC_0_def CRC_2_def)

text \<open>
  The only merged outlier of this input (index 21, value 480) is correctable; after the
  correction the scan stands at \<open>m_ind = 0\<close> and reads \<open>m_outlier_ind[m_ind - 1]\<close>.
\<close>

lemma outlier_scan_at_zero:
  "outlier_step (z_lo, z_hi_outlier) 36 v_outlier 21 None
     = Inr (True, v_outlier[20 := 1200, 21 := 400, 22 := 1200], Some 1200, 20)
   \<and> buf_read ((21 # replicate 63 0)[0 := 0]) (0 - 1) = (Inl OutOfBounds :: fault + nat)
   \<and> outlier_scan (z_lo, z_hi_outlier) 36 v_outlier (21 # replicate 63 0) None 0 = Inl OutOfBounds"
  by code_simp

text \<open>
  C10 at a failing input: the corrector reads the cell below the buffer of the merged
  outliers.
\<close>

theorem corrector_reads_below_buffer:
  "corrector (z_lo, z_hi_outlier) v_outlier 36 0 = Inl OutOfBounds"
  by code_simp


section \<open>The categorizer and the overlap flag\<close>

text \<open>The clusterer only ever raises the overlap flag; a flag that comes in raised stays.\<close>

lemma bin_clustering_overlap:
  "overlap_flag s \<Longrightarrow> overlap_flag (fst (snd (bin_clustering f (s, opf) b)))"
proof (induction f "(s, opf)" b arbitrary: s opf rule: bin_clustering.induct)
  case (1 h_floor_val s opf b_ind)
  show ?case
    apply (subst bin_clustering.simps)
    using 1
    apply (auto simp: Let_def split: prod.splits option.splits if_splits)
    done
qed

lemma histogram_round_overlap:
  "overlap_flag s \<Longrightarrow> overlap_flag (snd (histogram_round v a b s))"
proof -
  assume s: "overlap_flag s"
  obtain rc bins hits hc nf where bf:
    "bin_filling v ((b + 65536 - BORDER_WIDTH) mod 65536) (h_next_floor s) (histogram_ceil s)
       (bin_width_2log s) ((a + BORDER_WIDTH) mod 65536) (bin_count s, h_hit_ind s, 0, CEIL_U)
     = (rc, bins, hits, hc, nf)"
    by (metis prod_cases5)
  define s1 where "s1 = s\<lparr>bin_count := bins, h_hit_ind := hits, h_next_floor := nf\<rparr>"
  have s1: "overlap_flag s1" using s by (simp add: s1_def)
  obtain rc2 s2 opf where bc: "bin_clustering (h_next_floor s) (s1, False) 0 = (rc2, s2, opf)"
    by (metis prod_cases3)
  have s2: "overlap_flag s2"
    using bin_clustering_overlap [OF s1, of "h_next_floor s" False 0] bc by simp
  show ?thesis
    using s1 s2 bf bc
    by (simp add: histogram_round_def Let_def s1_def split: prod.splits)
qed

lemma histogram_loop_overlap:
  "histogram_loop v a b s = Some r \<Longrightarrow> overlap_flag s \<Longrightarrow> overlap_flag (snd r)"
proof (induction rule: histogram_loop.raw_induct [rotated 1, consumes 1])
  case (1 hl v a b s r)
  obtain rc1 s1 where hr: "histogram_round v a b s = (rc1, s1)"
    by (cases "histogram_round v a b s")
  have s1: "overlap_flag s1" using histogram_round_overlap [OF 1(3), of v a b] hr by simp
  show ?case
  proof (cases "rc1 \<noteq> CRC_0 \<or> h_next_floor s1 = CEIL_U")
    case True
    then have "snd r = s1" using 1(2) unfolding hr by (auto split: if_splits)
    with s1 show ?thesis by simp
  next
    case False
    then obtain bw w2 where
      "hl v a b (s1\<lparr>h_next_floor := h_next_floor s1 - bin_width s1,
                      bin_width := bw, bin_width_2log := w2\<rparr>) = Some r"
      using 1(2) unfolding hr by (auto split: if_splits option.splits)
    from 1(1) [OF this] s1 show ?thesis by simp
  qed
qed

lemma clusterer_overlap:
  assumes "clusterer z v a b True = Some (z', ov, rc)"
  shows "ov"
proof -
  obtain rc1 s where hl: "histogram_loop v a b (clusterer_init z True) = Some (rc1, s)"
    and ov: "ov = overlap_flag s"
    using assms by (auto simp: clusterer_def Let_def split: option.splits if_splits)
  have "overlap_flag (clusterer_init z True)" by (simp add: clusterer_init_def)
  from histogram_loop_overlap [OF hl this] ov show ?thesis by simp
qed

text \<open>
  C8.  Both clusterer runs return code 0 and one of them raises the overlap flag (the
  flag of the HIGH run is handed to the LOW run).  Then the categorizer returns code 0
  with the two category sets exactly as the clusterer runs left them, the durations as
  they came in, and the sequence printed from these: nothing of the result comes from the
  corrector, whatever the number of unreliable values.  The clusterer and the printer
  have no access to the durations other than reading them.
\<close>

theorem categorizer_overlap_keeps_durations:
  assumes "clusterer (snd zz) v 1 ((n + 65535) mod 65536) False = Some (z_high, ov1, CRC_0)"
    and "clusterer (fst zz) v 2 n ov1 = Some (z_low, ov2, CRC_0)"
    and "ov1 \<or> ov2"
  shows "categorizer zz v n u =
           Some (Inr \<lparr>return_code = CRC_0, categories_of = (z_low, z_high), durations = v,
                      printed = Some (sequence_printer (z_low, z_high) v (int n))\<rparr>)"
proof -
  have "ov2"
  proof (cases ov1)
    case True
    with assms(2) show ?thesis
      using clusterer_overlap [of "fst zz" v 2 n z_low ov2 CRC_0] by simp
  next
    case False
    with assms(3) show ?thesis by simp
  qed
  with assms(1,2) show ?thesis by (simp add: categorizer_def)
qed

lemma bimodal_high:
  "clusterer z_blank v_bimodal 1 ((58 + 65535) mod 65536) False
     = Some (z_bimodal_high, True, CRC_0)"
  by code_simp

lemma bimodal_low:
  "clusterer z_blank v_bimodal 2 58 True = Some (z_bimodal_low, True, CRC_0)"
  by code_simp

theorem categorizer_overlap_keeps_durations_witness:
  "categorizer (z_blank, z_blank) v_bimodal 58 0 =
     Some (Inr \<lparr>return_code = CRC_0, categories_of = (z_bimodal_low, z_bimodal_high),
                durations = v_bimodal,
                printed = Some (sequence_printer (z_bimodal_low, z_bimodal_high)
                                  v_bimodal 58)\<rparr>)"
  using categorizer_overlap_keeps_durations
          [of "(z_blank, z_blank)" v_bimodal 58 z_bimodal_high True z_bimodal_low True 0]
    bimodal_high bimodal_low
  by simp

section \<open>The separator barrier (2.1.2.2)\<close>

text \<open>
  The loop over the outliers returns the highest outlier value below the barrier, or the
  value it started with.
\<close>

lemma raise_loop_char:
  "(raise_loop z v B i acc = acc
      \<or> (\<exists>k. i \<le> k \<and> k < outlier_size z \<and> raise_loop z v B i acc = v ! (outlier_ind z ! k)
               \<and> v ! (outlier_ind z ! k) < B))
   \<and> acc \<le> raise_loop z v B i acc
   \<and> (\<forall>k. i \<le> k \<and> k < outlier_size z \<and> v ! (outlier_ind z ! k) < B
          \<longrightarrow> v ! (outlier_ind z ! k) \<le> raise_loop z v B i acc)"
proof (induction "outlier_size z - i" arbitrary: i acc rule: less_induct)
  case less
  show ?case
  proof (cases "i < outlier_size z")
    case False
    then have "raise_loop z v B i acc = acc" by (subst raise_loop.simps) simp
    with False show ?thesis by auto
  next
    case True
    define x where "x = v ! (outlier_ind z ! i)"
    define acc' where "acc' = (if x < B \<and> x > acc then x else acc)"
    have step: "raise_loop z v B i acc = raise_loop z v B (i + 1) acc'"
      using True by (subst raise_loop.simps) (simp add: Let_def x_def acc'_def)
    have IH: "(raise_loop z v B (i + 1) acc' = acc'
      \<or> (\<exists>k. i + 1 \<le> k \<and> k < outlier_size z \<and> raise_loop z v B (i + 1) acc' = v ! (outlier_ind z ! k)
               \<and> v ! (outlier_ind z ! k) < B))
      \<and> acc' \<le> raise_loop z v B (i + 1) acc'
      \<and> (\<forall>k. i + 1 \<le> k \<and> k < outlier_size z \<and> v ! (outlier_ind z ! k) < B
          \<longrightarrow> v ! (outlier_ind z ! k) \<le> raise_loop z v B (i + 1) acc')"
      using True by (intro less) simp
    have a: "acc \<le> acc'" by (auto simp: acc'_def)
    have b: "x < B \<Longrightarrow> x \<le> acc'" by (auto simp: acc'_def)
    have c: "acc' = acc \<or> (acc' = x \<and> x < B)" by (auto simp: acc'_def)
    have p1: "raise_loop z v B i acc = acc
      \<or> (\<exists>k. i \<le> k \<and> k < outlier_size z \<and> raise_loop z v B i acc = v ! (outlier_ind z ! k)
               \<and> v ! (outlier_ind z ! k) < B)"
    proof -
      from IH consider "raise_loop z v B (i + 1) acc' = acc'"
        | k where "i + 1 \<le> k" "k < outlier_size z"
            "raise_loop z v B (i + 1) acc' = v ! (outlier_ind z ! k)" "v ! (outlier_ind z ! k) < B"
        by blast
      then show ?thesis
      proof cases
        case 1
        show ?thesis
        proof (cases "acc' = acc")
          case True
          with 1 step show ?thesis by simp
        next
          case False
          with c have "acc' = x" "x < B" by auto
          with 1 step have "raise_loop z v B i acc = v ! (outlier_ind z ! i)"
            "v ! (outlier_ind z ! i) < B" by (simp_all add: x_def)
          with \<open>i < outlier_size z\<close> show ?thesis by blast
        qed
      next
        case 2
        then have "i \<le> k" by simp
        with 2 step show ?thesis by auto
      qed
    qed
    have ih2: "acc' \<le> raise_loop z v B (i + 1) acc'" using IH by blast
    have ih3: "v ! (outlier_ind z ! k) \<le> raise_loop z v B (i + 1) acc'"
      if "i + 1 \<le> k" "k < outlier_size z" "v ! (outlier_ind z ! k) < B" for k
      using IH that by blast
    have p2: "acc \<le> raise_loop z v B i acc" using order_trans [OF a ih2] step by simp
    have p3: "v ! (outlier_ind z ! k) \<le> raise_loop z v B i acc"
      if "i \<le> k" "k < outlier_size z" "v ! (outlier_ind z ! k) < B" for k
    proof (cases "k = i")
      case True
      with that have "x \<le> acc'" using b by (simp add: x_def)
      from order_trans [OF this ih2] True step show ?thesis by (simp add: x_def)
    next
      case False
      with that have "i + 1 \<le> k" by simp
      from ih3 [OF this that(2,3)] step show ?thesis by simp
    qed
    from p1 p2 p3 show ?thesis by blast
  qed
qed

lemma raise_max:
  "unat (raise z v b) = Max (insert 0 {x \<in> outlier_values z v. x < unat (barrier_of b)})"
proof -
  let ?r = "raise_loop z v (barrier_of b) 0 0"
  let ?S = "{x \<in> outlier_values z v. x < unat (barrier_of b)}"
  note ch = raise_loop_char [of z v "barrier_of b" 0 0]
  have fin: "finite (insert 0 ?S)" by (simp add: outlier_values_def)
  have mem: "unat ?r \<in> insert 0 ?S"
    using ch by (auto simp: outlier_values_def word_less_nat_alt)
  have ub: "y \<le> unat ?r" if "y \<in> insert 0 ?S" for y
    using ch that by (auto simp: outlier_values_def word_less_nat_alt word_le_nat_alt)
  have "Max (insert 0 ?S) = unat ?r"
    using fin mem ub by (intro Max_eqI) auto
  then show ?thesis by (simp add: raise_def)
qed


lemma barrier_of_unat:
  "unat (barrier_of b) = (if unat b < 6500 then 10 * unat b else 65000)"
proof (cases "b < 6500")
  case True
  then have lt: "unat b < 6500" by (simp add: word_less_nat_alt)
  then have "unat (10 * b) = 10 * unat b" by (simp add: unat_word_ariths)
  with True lt show ?thesis by (simp add: barrier_of_def)
next
  case False
  then have "\<not> unat b < 6500" by (simp add: word_less_nat_alt)
  with False show ?thesis by (simp add: barrier_of_def CEIL_U_def)
qed

lemma barrier_of_spec: "unat (barrier_of b) = spec_separator (unat b)"
  by (simp add: barrier_of_unat spec_separator_def CEIL_def)

lemma outlier_values_barrier [simp]:
  "outlier_values (z\<lparr>separator_barrier := x\<rparr>) v = outlier_values z v"
  by (simp add: outlier_values_def)

lemma spec_raise_barrier [simp]:
  "spec_raise (z\<lparr>separator_barrier := x\<rparr>) v = spec_raise z v"
  by (simp add: spec_raise_def fun_eq_iff)

lemma raise_barrier [simp]: "raise (z\<lparr>separator_barrier := x\<rparr>) v b = raise z v b"
proof -
  have "raise_loop (z\<lparr>separator_barrier := x\<rparr>) v B i acc = raise_loop z v B i acc" for B i acc
  proof (induction "outlier_size z - i" arbitrary: i acc rule: less_induct)
    case less
    show ?case
    proof (cases "i < outlier_size z")
      case True
      then show ?thesis
        by (subst raise_loop.simps, subst (2) raise_loop.simps) (simp add: Let_def less)
    next
      case False
      then show ?thesis by (subst raise_loop.simps, subst (2) raise_loop.simps) simp
    qed
  qed
  then show ?thesis by (simp add: raise_def)
qed

lemma finite_outlier_values: "finite (outlier_values z v)"
  by (simp add: outlier_values_def)

lemma spec_raise_ge: "b \<le> spec_raise z v b"
  by (simp add: spec_raise_def finite_outlier_values)

lemma spec_raise_cases:
  "spec_raise z v b = b \<or> (spec_raise z v b \<in> outlier_values z v \<and> spec_raise z v b < 10 * b)"
proof -
  have "spec_raise z v b \<in> insert b {x \<in> outlier_values z v. x < 10 * b}"
    unfolding spec_raise_def by (intro Max_in) (simp_all add: finite_outlier_values)
  then show ?thesis by auto
qed

lemma outlier_values_less: "x \<in> outlier_values z v \<Longrightarrow> x < 65536"
proof -
  assume "x \<in> outlier_values z v"
  then obtain w :: u16 where "x = unat w" by (auto simp: outlier_values_def)
  then show ?thesis using unsigned_less [of w, where 'a = nat] by simp
qed

lemma Max_insert_zero:
  fixes S :: "nat set"
  assumes "finite S"
  shows "Max (insert a S) = max a (Max (insert 0 S))"
proof (cases "S = {}")
  case True
  then show ?thesis by simp
next
  case False
  then show ?thesis using assms by simp
qed

text \<open>Below the threshold the raise of the code is the raise of the spec.\<close>

lemma spec_raise_code:
  assumes "unat b < 6500"
  shows "spec_raise z v (unat b) = max (unat b) (unat (raise z v b))"
proof -
  let ?S = "{x \<in> outlier_values z v. x < 10 * unat b}"
  have fin: "finite ?S" by (simp add: finite_outlier_values)
  have "unat (raise z v b) = Max (insert 0 ?S)"
    using assms by (simp add: raise_max barrier_of_unat)
  moreover have "Max (insert (unat b) ?S) = max (unat b) (Max (insert 0 ?S))"
    using fin by (rule Max_insert_zero)
  ultimately show ?thesis by (simp add: spec_raise_def)
qed

lemma spec_fixed_point:
  "\<exists>k. spec_raise z v ((spec_raise z v ^^ k) x) = (spec_raise z v ^^ k) x
       \<and> x \<le> (spec_raise z v ^^ k) x"
proof (induction "65536 - x" arbitrary: x rule: less_induct)
  case less
  show ?case
  proof (cases "spec_raise z v x = x")
    case True
    then have "spec_raise z v ((spec_raise z v ^^ 0) x) = (spec_raise z v ^^ 0) x
       \<and> x \<le> (spec_raise z v ^^ 0) x" by simp
    then show ?thesis by blast
  next
    case False
    let ?y = "spec_raise z v x"
    have gt: "x < ?y" using False spec_raise_ge [of x z v] by simp
    have "?y \<in> outlier_values z v" using False spec_raise_cases [of z v x] by simp
    then have "?y < 65536" by (rule outlier_values_less)
    with gt have "65536 - ?y < 65536 - x" by simp
    from less [OF this] obtain k where
      k: "spec_raise z v ((spec_raise z v ^^ k) ?y) = (spec_raise z v ^^ k) ?y"
         "?y \<le> (spec_raise z v ^^ k) ?y" by blast
    have "(spec_raise z v ^^ Suc k) x = (spec_raise z v ^^ k) ?y" by (simp add: funpow_swap1)
    with k gt have "spec_raise z v ((spec_raise z v ^^ Suc k) x) = (spec_raise z v ^^ Suc k) x
       \<and> x \<le> (spec_raise z v ^^ Suc k) x" by simp
    then show ?thesis by blast
  qed
qed

text \<open>From the threshold on the barrier of the code is \<open>CEIL\<close>, however far it is raised.\<close>

lemma barrier_loop_saturated:
  "old < new \<Longrightarrow> 6500 \<le> unat new \<Longrightarrow> separator_barrier (barrier_loop z v old new) = CEIL_U"
proof (induction "65536 - unat old" arbitrary: z old new rule: less_induct)
  case less
  let ?z = "z\<lparr>separator_barrier := barrier_of new\<rparr>"
  have step: "barrier_loop z v old new = barrier_loop ?z v new (raise z v new)"
    using less.prems by (subst barrier_loop.simps) simp
  have b: "barrier_of new = CEIL_U"
    using less.prems by (simp add: barrier_of_def word_less_nat_alt)
  show ?case
  proof (cases "new < raise z v new")
    case False
    then have "barrier_loop ?z v new (raise z v new) = ?z" by (subst barrier_loop.simps) simp
    with step b show ?thesis by simp
  next
    case True
    have "unat new < 65536" using unsigned_less [of new, where 'a = nat] by simp
    then have m: "65536 - unat new < 65536 - unat old"
      using less.prems by (simp add: word_less_nat_alt)
    have "6500 \<le> unat (raise z v new)"
      using True less.prems by (simp add: word_less_nat_alt)
    from less.hyps [OF m True this, of ?z] step show ?thesis by simp
  qed
qed

lemma barrier_loop_fixed_point:
  "old < new \<Longrightarrow>
     \<exists>k. spec_raise z v ((spec_raise z v ^^ k) (unat new)) = (spec_raise z v ^^ k) (unat new)
        \<and> unat (separator_barrier (barrier_loop z v old new))
            = spec_separator ((spec_raise z v ^^ k) (unat new))"
proof (induction "65536 - unat old" arbitrary: z old new rule: less_induct)
  case less
  let ?z = "z\<lparr>separator_barrier := barrier_of new\<rparr>"
  let ?f = "spec_raise z v"
  have step: "barrier_loop z v old new = barrier_loop ?z v new (raise z v new)"
    using less.prems by (subst barrier_loop.simps) simp
  show ?case
  proof (cases "6500 \<le> unat new")
    case True
    from spec_fixed_point [of z v "unat new"] obtain k where
      k: "?f ((?f ^^ k) (unat new)) = (?f ^^ k) (unat new)" "unat new \<le> (?f ^^ k) (unat new)"
      by blast
    with True have "spec_separator ((?f ^^ k) (unat new)) = 65000"
      by (simp add: spec_separator_def CEIL_def)
    moreover have "unat (separator_barrier (barrier_loop z v old new)) = 65000"
      using barrier_loop_saturated [OF less.prems True, of z v] by (simp add: CEIL_U_def)
    ultimately show ?thesis using k(1) by metis
  next
    case small: False
    then have lt: "unat new < 6500" by simp
    show ?thesis
    proof (cases "new < raise z v new")
      case False
      then have stop: "barrier_loop ?z v new (raise z v new) = ?z"
        by (subst barrier_loop.simps) simp
      have "?f (unat new) = unat new"
        using False by (simp add: spec_raise_code [OF lt] word_less_nat_alt max_def)
      then have "?f ((?f ^^ 0) (unat new)) = (?f ^^ 0) (unat new)
         \<and> unat (separator_barrier (barrier_loop z v old new))
             = spec_separator ((?f ^^ 0) (unat new))"
        using step stop by (simp add: barrier_of_spec)
      then show ?thesis by blast
    next
      case True
      have "unat new < 65536" using unsigned_less [of new, where 'a = nat] by simp
      then have m: "65536 - unat new < 65536 - unat old"
        using less.prems by (simp add: word_less_nat_alt)
      from less.hyps [OF m True, of ?z] obtain k where
        k: "?f ((?f ^^ k) (unat (raise z v new))) = (?f ^^ k) (unat (raise z v new))"
           "unat (separator_barrier (barrier_loop ?z v new (raise z v new)))
              = spec_separator ((?f ^^ k) (unat (raise z v new)))"
        by auto
      have "?f (unat new) = unat (raise z v new)"
        using True by (simp add: spec_raise_code [OF lt] word_less_nat_alt max_def)
      then have "(?f ^^ Suc k) (unat new) = (?f ^^ k) (unat (raise z v new))"
        by (simp add: funpow_swap1)
      with k step have "?f ((?f ^^ Suc k) (unat new)) = (?f ^^ Suc k) (unat new)
         \<and> unat (separator_barrier (barrier_loop z v old new))
             = spec_separator ((?f ^^ Suc k) (unat new))"
        by simp
      then show ?thesis by blast
    qed
  qed
qed

lemma spec_separator_le: "spec_separator b \<le> CEIL"
  by (simp add: spec_separator_def CEIL_def)

text \<open>
  When the ceil of the last cluster is not 0, the loop of the code ends at a barrier that
  the raise of the specification leaves unchanged, reached from the ceil by repeated
  raises, and the separator barrier is ten times that barrier below \<open>CEIL/10\<close> and
  \<open>CEIL\<close> from there on.
\<close>

lemma separator_stage_fixed_point:
  assumes "cluster_ceil z ! ((cluster_size z + 255) mod 256) \<noteq> 0"
  shows "\<exists>k. let b = (spec_raise z v ^^ k) (unat (cluster_ceil z ! ((cluster_size z + 255) mod 256)))
              in spec_raise z v b = b
                 \<and> unat (separator_barrier (separator_stage z v)) = spec_separator b
                 \<and> unat (separator_barrier (separator_stage z v)) \<le> CEIL"
proof -
  have "0 < cluster_ceil z ! ((cluster_size z + 255) mod 256)"
    using assms by (simp add: word_greater_zero_iff)
  from barrier_loop_fixed_point [OF this, of z v] show ?thesis
    unfolding separator_stage_def Let_def using spec_separator_le by metis
qed

lemma first_trace:
  "map_option (map_sum id categories_of) (categorizer (z_blank, z_blank) v_first 24 0)
     = Some (Inr (z_first_low, z_first_high))"
  by code_simp

text \<open>
  C7 at a failing input.  The receiver keeps its category sets from one trace to the
  next; after the trace \<open>v_first\<close> the LOW separator barrier is 8160.  For the trace
  \<open>v_wrap\<close> the ceil of the last LOW cluster is 0 in 16 bits, the loop
  \<open>while (v_new_barrier > v_old_barrier)\<close> is not entered and the separator barrier is
  not assigned: the categorizer returns code 0 with two LOW clusters, the last ceil 0 and
  the barrier of the trace before.
\<close>

theorem separator_barrier_left_stale:
  "low_summary (categorizer (z_first_low, z_first_high) v_wrap 30 0)
     = Some (Inr (CRC_0, 2, 0, 8160))"
  by code_simp
end
